theory Spec2Isabelle
  imports Main "HOL-Library.Word" "HOL-Library.Multiset" "HOL-Library.Product_Lexorder"
begin

unbundle bit_operations_syntax

section \<open>Board geometry\<close>

text \<open>
  Constants of \<^verbatim>\<open>unblock.cc\<close>. \<^verbatim>\<open>size_t\<close> is taken as 64 bits wide; \<^verbatim>\<open>int\<close> values that are
  only compared or incremented a few times (coordinates promoted from \<^verbatim>\<open>int8_t\<close>, the move
  counter) are mathematical integers.
\<close>

definition kHashMult :: "64 word" where
  "kHashMult = 31"

definition kBoardSize :: int where
  "kBoardSize = 6"

definition kEmpty :: char where
  "kEmpty = CHR ''.''"

text \<open>
  Everything that ends a run other than a normal return: the two \<^verbatim>\<open>exit(1)\<close> branches
  (\<open>Clash\<close> in \<^verbatim>\<open>Piece::Draw\<close>, \<open>MissingBackpointer\<close> in \<^verbatim>\<open>Game::TracePathTo\<close>) and
  the two kinds of undefined behaviour the code can run into (\<open>OutOfRange\<close>: an index
  outside the \<^verbatim>\<open>DrawBuf\<close>; \<open>EmptyVector\<close>: \<^verbatim>\<open>front()\<close> or \<^verbatim>\<open>begin() + 1\<close> on a
  vector without elements).
\<close>

datatype error = Clash | OutOfRange | EmptyVector | MissingBackpointer

text \<open>
  \<^verbatim>\<open>typedef char DrawBuf[kBoardSize][kBoardSize]\<close>, indexed \<^verbatim>\<open>buf[y][x]\<close>: a function of the
  row and the column, read and written only at indices inside the array.
\<close>

type_synonym DrawBuf = "int \<Rightarrow> int \<Rightarrow> char"

definition in_buf :: "int \<Rightarrow> int \<Rightarrow> bool" where
  "in_buf cy cx = (0 \<le> cy \<and> cy < kBoardSize \<and> 0 \<le> cx \<and> cx < kBoardSize)"

definition buf_get :: "DrawBuf \<Rightarrow> int \<Rightarrow> int \<Rightarrow> error + char" where
  "buf_get buf cy cx = (if in_buf cy cx then Inr (buf cy cx) else Inl OutOfRange)"

definition buf_set :: "DrawBuf \<Rightarrow> int \<Rightarrow> int \<Rightarrow> char \<Rightarrow> DrawBuf" where
  "buf_set buf cy cx c = buf(cy := (buf cy)(cx := c))"

section \<open>Piece\<close>

datatype Orient = kHoriz | kVert

text \<open>The fields \<^verbatim>\<open>x\<close>, \<^verbatim>\<open>y\<close>, \<^verbatim>\<open>size\<close> and \<^verbatim>\<open>orient\<close>, each an \<^verbatim>\<open>int8_t\<close>.\<close>

record Piece =
  piece_x :: "8 word"
  piece_y :: "8 word"
  piece_size :: "8 word"
  piece_orient :: Orient

text \<open>The constructor narrows its \<^verbatim>\<open>int\<close> arguments to \<^verbatim>\<open>int8_t\<close>.\<close>

definition mk_Piece :: "int \<Rightarrow> int \<Rightarrow> int \<Rightarrow> Orient \<Rightarrow> Piece" where
  "mk_Piece x y sz orient =
     \<lparr>piece_x = word_of_int x, piece_y = word_of_int y, piece_size = word_of_int sz,
      piece_orient = orient\<rparr>"

definition orient_code :: "Orient \<Rightarrow> 64 word" where
  "orient_code orient = (case orient of kHoriz \<Rightarrow> 0 | kVert \<Rightarrow> 1)"

text \<open>
  \<^verbatim>\<open>Piece::hash\<close>: the \<^verbatim>\<open>int8_t\<close> fields are sign-extended into the \<^verbatim>\<open>size_t\<close> arithmetic.
\<close>

definition Piece_hash :: "Piece \<Rightarrow> 64 word" where
  "Piece_hash p =
     scast (piece_x p) + kHashMult * (scast (piece_y p) + kHashMult *
       (scast (piece_size p) + kHashMult * orient_code (piece_orient p)))"

text \<open>\<^verbatim>\<open>Piece::operator<\<close>: by row, then by column; size and orientation are not compared.\<close>

definition Piece_less :: "Piece \<Rightarrow> Piece \<Rightarrow> bool" where
  "Piece_less p other =
     (sint (piece_y p) < sint (piece_y other) \<or>
      (piece_y p = piece_y other \<and> sint (piece_x p) < sint (piece_x other)))"

text \<open>
  The position \<^verbatim>\<open>Piece::operator<\<close> compares, row first, in the lexicographic order of
  pairs.
\<close>

definition piece_key :: "Piece \<Rightarrow> int \<times> int" where
  "piece_key p = (sint (piece_y p), sint (piece_x p))"

text \<open>
  \<^verbatim>\<open>Piece::Draw\<close>: the loop runs \<open>size\<close> times (not at all for a size below 1); the first
  argument counts the iterations left.
\<close>

fun Draw_loop :: "nat \<Rightarrow> Orient \<Rightarrow> char \<Rightarrow> int \<Rightarrow> int \<Rightarrow> DrawBuf \<Rightarrow> error + DrawBuf" where
  "Draw_loop 0 orient c cur_x cur_y buf = Inr buf"
| "Draw_loop (Suc n) orient c cur_x cur_y buf =
     (if \<not> in_buf cur_y cur_x then Inl OutOfRange
      else if buf cur_y cur_x \<noteq> kEmpty then Inl Clash
      else Draw_loop n orient c
             (if orient = kHoriz then cur_x + 1 else cur_x)
             (if orient = kHoriz then cur_y else cur_y + 1)
             (buf_set buf cur_y cur_x c))"

definition Piece_Draw :: "Piece \<Rightarrow> char \<Rightarrow> DrawBuf \<Rightarrow> error + DrawBuf" where
  "Piece_Draw p c buf =
     Draw_loop (nat (sint (piece_size p))) (piece_orient p) c
       (sint (piece_x p)) (sint (piece_y p)) buf"

text \<open>
  The two kinds of \<^verbatim>\<open>while\<close> loop of \<^verbatim>\<open>Piece::MovementRange\<close>. \<open>cell\<close> reads the buffer
  along the piece's axis; it is only called once the two tests before it in the
  condition have passed.
\<close>

function scan_down :: "(int \<Rightarrow> error + char) \<Rightarrow> int \<Rightarrow> int \<Rightarrow> error + int" where
  "scan_down cell min_delta cur =
     (if min_delta > -1 \<and> cur \<ge> 0 then
        (case cell cur of
           Inl e \<Rightarrow> Inl e
         | Inr c \<Rightarrow> if c = kEmpty then scan_down cell (min_delta - 1) (cur - 1)
                    else Inr min_delta)
      else Inr min_delta)"
  by pat_completeness auto
termination
  by (relation "measure (\<lambda>(cell, min_delta, cur). nat (min_delta + 1))") auto

function scan_up :: "(int \<Rightarrow> error + char) \<Rightarrow> int \<Rightarrow> int \<Rightarrow> error + int" where
  "scan_up cell max_delta cur =
     (if max_delta < 1 \<and> cur < kBoardSize then
        (case cell cur of
           Inl e \<Rightarrow> Inl e
         | Inr c \<Rightarrow> if c = kEmpty then scan_up cell (max_delta + 1) (cur + 1)
                    else Inr max_delta)
      else Inr max_delta)"
  by pat_completeness auto
termination
  by (relation "measure (\<lambda>(cell, max_delta, cur). nat (1 - max_delta))") auto

declare scan_down.simps [simp del] scan_up.simps [simp del]

definition scan_both :: "(int \<Rightarrow> error + char) \<Rightarrow> int \<Rightarrow> int \<Rightarrow> error + (int \<times> int)" where
  "scan_both cell pos sz =
     (case scan_down cell 0 (pos - 1) of
        Inl e \<Rightarrow> Inl e
      | Inr min_delta \<Rightarrow>
          (case scan_up cell 0 (pos + sz) of
             Inl e \<Rightarrow> Inl e
           | Inr max_delta \<Rightarrow> Inr (min_delta, max_delta)))"

definition MovementRange :: "Piece \<Rightarrow> DrawBuf \<Rightarrow> error + (int \<times> int)" where
  "MovementRange p buf =
     (if piece_orient p = kHoriz then
        scan_both (\<lambda>cur_x. buf_get buf (sint (piece_y p)) cur_x)
          (sint (piece_x p)) (sint (piece_size p))
      else
        scan_both (\<lambda>cur_y. buf_get buf cur_y (sint (piece_x p)))
          (sint (piece_y p)) (sint (piece_size p)))"

text \<open>\<^verbatim>\<open>Piece::Move\<close>: \<^verbatim>\<open>x += delta\<close> computes in \<^verbatim>\<open>int\<close> and narrows back to \<^verbatim>\<open>int8_t\<close>.\<close>

definition Move :: "Piece \<Rightarrow> int \<Rightarrow> Piece" where
  "Move p delta =
     (if piece_orient p = kHoriz then p\<lparr>piece_x := word_of_int (sint (piece_x p) + delta)\<rparr>
      else p\<lparr>piece_y := word_of_int (sint (piece_y p) + delta)\<rparr>)"

section \<open>State\<close>

record State =
  pieces :: "Piece list"

text \<open>
  \<^verbatim>\<open>State::hash\<close>: one round per piece, \<^verbatim>\<open>cur = cur * kHashMult + piece.hash()\<close> and then
  \<^verbatim>\<open>cur ^= cur << 32\<close>.
\<close>

definition hash_round :: "64 word \<Rightarrow> Piece \<Rightarrow> 64 word" where
  "hash_round cur piece =
     (let cur' = cur * kHashMult + Piece_hash piece in cur' XOR push_bit 32 cur')"

definition State_hash :: "State \<Rightarrow> 64 word" where
  "State_hash S = foldl hash_round 0 (pieces S)"

text \<open>
  \<^verbatim>\<open>std::sort\<close> with \<^verbatim>\<open>Piece::operator<\<close>. The function is the C++ library's and not part
  of \<^verbatim>\<open>unblock.cc\<close>. The standard promises that it leaves a permutation of the range in
  which no element is less than one before it (\<open>sorts\<close>), and promises nothing about the
  order in which it leaves elements neither of which is less than the other: here, pieces
  at the same position. So the sort is a parameter of the model. A \<open>sorter\<close> is a
  function on piece lists that keeps the promise, whichever way it orders such pieces;
  \<open>std_sort srt\<close> applies the sorter \<open>srt\<close>; and every function below that sorts, or
  calls one that does, has the sorter for its first argument. What is proved of such a
  function for every sorter holds of the code with every library that keeps the promise.
\<close>

definition sorts :: "(Piece list \<Rightarrow> Piece list) \<Rightarrow> bool" where
  "sorts f = (\<forall>xs. mset (f xs) = mset xs \<and> sorted_wrt (\<lambda>a b. \<not> Piece_less b a) (f xs))"

text \<open>
  Insertion sort, which leaves pieces at the same position in the order they come in. It
  keeps the promise, so there are sorters.
\<close>

fun sort_insert :: "Piece \<Rightarrow> Piece list \<Rightarrow> Piece list" where
  "sort_insert p [] = [p]"
| "sort_insert p (q # qs) = (if Piece_less q p then q # sort_insert p qs else p # q # qs)"

fun insertion_sort :: "Piece list \<Rightarrow> Piece list" where
  "insertion_sort [] = []"
| "insertion_sort (p # ps) = sort_insert p (insertion_sort ps)"

lemma Piece_less_key: "Piece_less p q \<longleftrightarrow> piece_key p < piece_key q"
  by (auto simp: Piece_less_def piece_key_def less_prod_def dest: signed_word_eqI)

lemma sort_insert_insort: "sort_insert p qs = insort_key piece_key p qs"
  by (induction qs) (auto simp: Piece_less_key)

lemma insertion_sort_sort_key: "insertion_sort ps = sort_key piece_key ps"
  by (induction ps) (simp_all add: sort_insert_insort)

lemma sorted_wrt_Piece_less:
  "sorted_wrt (\<lambda>a b. \<not> Piece_less b a) ps \<longleftrightarrow> sorted (map piece_key ps)"
  by (simp add: sorted_map Piece_less_key not_less)

lemma sorts_insertion_sort: "sorts insertion_sort"
  by (simp add: sorts_def insertion_sort_sort_key sorted_wrt_Piece_less)

typedef sorter = "{f. sorts f}"
  morphisms std_sort Abs_sorter
  using sorts_insertion_sort by auto

setup_lifting type_definition_sorter

text \<open>
  Two sorters: insertion sort, and insertion sort of the reversed list, which leaves
  pieces at the same position in the opposite of the order they come in.
\<close>

lift_definition insertion_sorter :: sorter is insertion_sort
  by (rule sorts_insertion_sort)

lift_definition reversing_sorter :: sorter is "\<lambda>xs. insertion_sort (rev xs)"
  by (simp add: sorts_def insertion_sort_sort_key sorted_wrt_Piece_less)

text \<open>
  \<^verbatim>\<open>State::Canonicalize\<close>: \<^verbatim>\<open>sort(pieces.begin() + 1, pieces.end())\<close>. With no piece at all
  \<^verbatim>\<open>begin() + 1\<close> lies behind \<^verbatim>\<open>end()\<close>, which is undefined.
\<close>

definition Canonicalize :: "sorter \<Rightarrow> State \<Rightarrow> error + State" where
  "Canonicalize srt S =
     (case pieces S of
        [] \<Rightarrow> Inl EmptyVector
      | goal # others \<Rightarrow> Inr (S\<lparr>pieces := goal # std_sort srt others\<rparr>))"

text \<open>
  \<^verbatim>\<open>State::Draw\<close>: \<^verbatim>\<open>memset\<close> fills the buffer with \<^verbatim>\<open>kEmpty\<close>; piece 0 is drawn with \<^verbatim>\<open>'*'\<close>, piece \<open>i\<close> with \<^verbatim>\<open>'A' + i\<close>, an \<^verbatim>\<open>int\<close>
  that the \<^verbatim>\<open>char\<close> parameter of \<^verbatim>\<open>Piece::Draw\<close> keeps the low eight bits of.
\<close>

definition marker :: "nat \<Rightarrow> char" where
  "marker i = (if i = 0 then CHR ''*'' else char_of (of_char CHR ''A'' + int i))"

fun Draw_pieces :: "nat \<Rightarrow> Piece list \<Rightarrow> DrawBuf \<Rightarrow> error + DrawBuf" where
  "Draw_pieces i [] b = Inr b"
| "Draw_pieces i (p # ps) b =
     (case Piece_Draw p (marker i) b of
        Inl e \<Rightarrow> Inl e
      | Inr b' \<Rightarrow> Draw_pieces (Suc i) ps b')"

definition empty_buf :: DrawBuf where
  "empty_buf = (\<lambda>cy cx. kEmpty)"

definition State_Draw :: "State \<Rightarrow> error + DrawBuf" where
  "State_Draw S = Draw_pieces 0 (pieces S) empty_buf"

text \<open>
  \<^verbatim>\<open>State::Neighbors\<close>. \<open>moved S i delta\<close> is the copy of \<open>S\<close> whose piece \<open>i\<close> has
  moved; \<open>Neighbors_deltas\<close> is the inner loop over \<open>delta\<close>, \<open>Neighbors_loop\<close> the
  outer loop over the pieces, with the index \<open>i\<close> it counts.
\<close>

definition moved :: "State \<Rightarrow> nat \<Rightarrow> int \<Rightarrow> State" where
  "moved S i delta = S\<lparr>pieces := (pieces S)[i := Move (pieces S ! i) delta]\<rparr>"

fun Neighbors_deltas :: "sorter \<Rightarrow> State \<Rightarrow> nat \<Rightarrow> int list \<Rightarrow> error + State list" where
  "Neighbors_deltas srt S i [] = Inr []"
| "Neighbors_deltas srt S i (delta # deltas) =
     (if delta \<noteq> 0 then
        (case Canonicalize srt (moved S i delta) of
           Inl e \<Rightarrow> Inl e
         | Inr neighbor \<Rightarrow>
             (case Neighbors_deltas srt S i deltas of
                Inl e \<Rightarrow> Inl e
              | Inr result \<Rightarrow> Inr (neighbor # result)))
      else Neighbors_deltas srt S i deltas)"

fun Neighbors_loop ::
  "sorter \<Rightarrow> State \<Rightarrow> DrawBuf \<Rightarrow> nat \<Rightarrow> Piece list \<Rightarrow> error + State list" where
  "Neighbors_loop srt S b i [] = Inr []"
| "Neighbors_loop srt S b i (p # ps) =
     (case MovementRange p b of
        Inl e \<Rightarrow> Inl e
      | Inr (first, second) \<Rightarrow>
          (case Neighbors_deltas srt S i [first..second] of
             Inl e \<Rightarrow> Inl e
           | Inr result \<Rightarrow>
               (case Neighbors_loop srt S b (Suc i) ps of
                  Inl e \<Rightarrow> Inl e
                | Inr result' \<Rightarrow> Inr (result @ result'))))"

definition Neighbors :: "sorter \<Rightarrow> State \<Rightarrow> error + State list" where
  "Neighbors srt S =
     (case State_Draw S of
        Inl e \<Rightarrow> Inl e
      | Inr b \<Rightarrow> Neighbors_loop srt S b 0 (pieces S))"

section \<open>Game\<close>

text \<open>
  \<^verbatim>\<open>QueueElem\<close> and the members of \<^verbatim>\<open>Game\<close>, named without the underscore they end in.
  The move counter is an \<^verbatim>\<open>int\<close> that starts at 0 and grows by 1 from a state to a state
  found from it; it is modelled without its upper bound.
\<close>

record QueueElem =
  state :: State
  moves :: int

record Game =
  start_state :: State
  dest_x :: int
  dest_y :: int
  queue :: "QueueElem list"
  prev_state :: "State \<rightharpoonup> State"

text \<open>The constructor: the queue and the map start empty.\<close>

definition mk_Game :: "State \<Rightarrow> int \<Rightarrow> int \<Rightarrow> Game" where
  "mk_Game start dx dy =
     \<lparr>start_state = start, dest_x = dx, dest_y = dy, queue = [], prev_state = Map.empty\<rparr>"

text \<open>\<^verbatim>\<open>unordered_map::emplace\<close> stores nothing under a key the map has.\<close>

definition emplace :: "(State \<rightharpoonup> State) \<Rightarrow> State \<Rightarrow> State \<Rightarrow> (State \<rightharpoonup> State)" where
  "emplace m k v = (if m k = None then m(k \<mapsto> v) else m)"

text \<open>
  \<^verbatim>\<open>Game::TracePathTo\<close>: the loop follows the map until it meets a state without pieces.
  Nothing in the function makes it end on a map with a cycle, so it is a partial function.
  The source reads a map entry with \<^verbatim>\<open>s = std::move(iter->second)\<close>, which leaves the value
  of the entry moved from; the call of \<open>Solve\<close> that runs \<open>TracePathTo\<close> returns what
  it returns and does not read the map again, so this function reads the entry and keeps the
  map. What the map holds after the call is \<open>moved_out\<close> below.
\<close>

partial_function (option) TracePathTo_loop ::
  "(State \<rightharpoonup> State) \<Rightarrow> State \<Rightarrow> State list \<Rightarrow> (error + State list) option" where
  "TracePathTo_loop prev s sequence =
     (if pieces s = [] then Some (Inr (rev sequence))
      else (case prev (s) of
              None \<Rightarrow> Some (Inl MissingBackpointer)
            | Some s' \<Rightarrow> TracePathTo_loop prev s' (sequence @ [s])))"

declare TracePathTo_loop.simps [code]

definition TracePathTo :: "(State \<rightharpoonup> State) \<Rightarrow> State \<Rightarrow> (error + State list) option" where
  "TracePathTo prev final_state = TracePathTo_loop prev final_state []"

text \<open>
  \<^verbatim>\<open>Game::Solve\<close>. \<open>at_dest\<close> is the test on the front piece, \<open>enqueue_new\<close> the loop over
  the neighbours of the element taken from the queue, \<open>Solve_loop\<close> the \<^verbatim>\<open>while\<close> loop. The
  loop hands back the element it stops at (\<open>None\<close> when the queue has run empty) and the
  members \<^verbatim>\<open>queue_\<close> and \<^verbatim>\<open>prev_state_\<close> as they are then, and \<open>Solve\<close> calls
  \<open>TracePathTo\<close> on the element and the map: the source's
  \<^verbatim>\<open>return TracePathTo(elem.state)\<close> in two steps.
\<close>

definition at_dest :: "int \<Rightarrow> int \<Rightarrow> Piece \<Rightarrow> bool" where
  "at_dest dx dy front_piece = (sint (piece_x front_piece) = dx \<and> sint (piece_y front_piece) = dy)"

fun enqueue_new ::
  "QueueElem \<Rightarrow> State list \<Rightarrow> QueueElem list \<times> (State \<rightharpoonup> State) \<Rightarrow>
   QueueElem list \<times> (State \<rightharpoonup> State)" where
  "enqueue_new elem [] (q, prev) = (q, prev)"
| "enqueue_new elem (new_state # rest) (q, prev) =
     (if prev new_state = None then
        enqueue_new elem rest
          (q @ [\<lparr>state = new_state, moves = moves elem + 1\<rparr>], prev(new_state \<mapsto> state elem))
      else enqueue_new elem rest (q, prev))"

function Solve_loop ::
  "sorter \<Rightarrow> int \<Rightarrow> int \<Rightarrow> QueueElem list \<Rightarrow> (State \<rightharpoonup> State) \<Rightarrow>
   error + (QueueElem option \<times> QueueElem list \<times> (State \<rightharpoonup> State))" where
  "Solve_loop srt dx dy [] prev = Inr (None, [], prev)"
| "Solve_loop srt dx dy (elem # q) prev =
     (case pieces (state elem) of
        [] \<Rightarrow> Inl EmptyVector
      | front_piece # others \<Rightarrow>
          if at_dest dx dy front_piece then Inr (Some elem, q, prev)
          else (case Neighbors srt (state elem) of
                  Inl e \<Rightarrow> Inl e
                | Inr ns \<Rightarrow>
                    Solve_loop srt dx dy (fst (enqueue_new elem ns (q, prev)))
                      (snd (enqueue_new elem ns (q, prev)))))"
  by pat_completeness auto

definition Solve :: "sorter \<Rightarrow> Game \<Rightarrow> (error + State list) option" where
  "Solve srt g =
     (case Solve_loop srt (dest_x g) (dest_y g)
             (queue g @ [\<lparr>state = start_state g, moves = 0\<rparr>])
             (emplace (prev_state g) (start_state g) \<lparr>pieces = []\<rparr>) of
        Inl e \<Rightarrow> Some (Inl e)
      | Inr (None, q, prev) \<Rightarrow> Some (Inr [])
      | Inr (Some elem, q, prev) \<Rightarrow> TracePathTo prev (state elem))"




section \<open>Notions the statements use\<close>

text \<open>
  The cells a piece covers, as (column, row) pairs: \<open>size\<close> of them from \<open>(x, y)\<close> along
  the piece's axis, none for a size below 1.
\<close>

definition cells :: "Piece \<Rightarrow> (int \<times> int) list" where
  "cells p =
     map (\<lambda>k. if piece_orient p = kHoriz then (sint (piece_x p) + int k, sint (piece_y p))
              else (sint (piece_x p), sint (piece_y p) + int k))
       [0..<nat (sint (piece_size p))]"

text \<open>A piece is in bounds when it covers at least one cell and all its cells lie in the grid.\<close>

definition in_bounds :: "Piece \<Rightarrow> bool" where
  "in_bounds p = (cells p \<noteq> [] \<and> list_all (\<lambda>(cx, cy). in_buf cy cx) (cells p))"

text \<open>No cell is covered twice, by two pieces or by one.\<close>

definition no_overlap :: "State \<Rightarrow> bool" where
  "no_overlap S = distinct (concat (map cells (pieces S)))"

definition valid_state :: "State \<Rightarrow> bool" where
  "valid_state S = (list_all in_bounds (pieces S) \<and> no_overlap S)"

text \<open>
  The movement range as the specification words it: the cells from the piece outwards
  along its axis, towards index 0 and towards index \<open>kBoardSize - 1\<close>, and in each
  direction the number of empty cells before the first cell that is not empty.
\<close>

definition outward_before :: "Piece \<Rightarrow> (int \<times> int) list" where
  "outward_before p =
     (if piece_orient p = kHoriz
      then map (\<lambda>k. (sint (piece_x p) - 1 - int k, sint (piece_y p))) [0..<nat (sint (piece_x p))]
      else map (\<lambda>k. (sint (piece_x p), sint (piece_y p) - 1 - int k)) [0..<nat (sint (piece_y p))])"

definition outward_after :: "Piece \<Rightarrow> (int \<times> int) list" where
  "outward_after p =
     (if piece_orient p = kHoriz
      then map (\<lambda>k. (sint (piece_x p) + sint (piece_size p) + int k, sint (piece_y p)))
             [0..<nat (kBoardSize - (sint (piece_x p) + sint (piece_size p)))]
      else map (\<lambda>k. (sint (piece_x p), sint (piece_y p) + sint (piece_size p) + int k))
             [0..<nat (kBoardSize - (sint (piece_y p) + sint (piece_size p)))])"

definition free_run :: "DrawBuf \<Rightarrow> (int \<times> int) list \<Rightarrow> int" where
  "free_run buf cs = int (length (takeWhile (\<lambda>(cx, cy). in_buf cy cx \<and> buf cy cx = kEmpty) cs))"

definition spec_MovementRange :: "Piece \<Rightarrow> DrawBuf \<Rightarrow> int \<times> int" where
  "spec_MovementRange p buf = (- free_run buf (outward_before p), free_run buf (outward_after p))"

text \<open>
  A move by \<open>delta\<close> is legal on a buffer when every cell the moved piece covers lies in
  the grid and is empty or one of the piece's own cells.
\<close>

definition legal_move :: "Piece \<Rightarrow> DrawBuf \<Rightarrow> int \<Rightarrow> bool" where
  "legal_move p buf delta =
     list_all (\<lambda>(cx, cy). in_buf cy cx \<and> ((cx, cy) \<in> set (cells p) \<or> buf cy cx = kEmpty))
       (cells (Move p delta))"

text \<open>
  The cell next to the piece on its axis, on the side of index 0 and on the other side,
  and what it takes for a cell to be free.
\<close>

definition cell_before :: "Piece \<Rightarrow> int \<times> int" where
  "cell_before p =
     (if piece_orient p = kHoriz then (sint (piece_x p) - 1, sint (piece_y p))
      else (sint (piece_x p), sint (piece_y p) - 1))"

definition cell_after :: "Piece \<Rightarrow> int \<times> int" where
  "cell_after p =
     (if piece_orient p = kHoriz then (sint (piece_x p) + sint (piece_size p), sint (piece_y p))
      else (sint (piece_x p), sint (piece_y p) + sint (piece_size p)))"

definition free_cell :: "DrawBuf \<Rightarrow> int \<times> int \<Rightarrow> bool" where
  "free_cell buf c = (in_buf (snd c) (fst c) \<and> buf (snd c) (fst c) = kEmpty)"

text \<open>
  A slide as the specification has it: one piece of the state, a delta other than 0, and
  the delta within the movement range as the specification words it, on the rendered state.
\<close>

definition spec_slide :: "State \<Rightarrow> nat \<Rightarrow> int \<Rightarrow> bool" where
  "spec_slide S i delta =
     (case State_Draw S of
        Inl e \<Rightarrow> False
      | Inr b \<Rightarrow>
          i < length (pieces S) \<and> delta \<noteq> 0 \<and>
          fst (spec_MovementRange (pieces S ! i) b) \<le> delta \<and>
          delta \<le> snd (spec_MovementRange (pieces S ! i) b))"

text \<open>
  A collision-free slide of one piece by one cell, without the canonical reordering: \<open>T\<close>
  is \<open>S\<close> with one piece moved by \<open>-1\<close> or \<open>1\<close>, the move being legal on the rendered
  \<open>S\<close>. \<open>slides_ok\<close> says that each state of a sequence is followed by such a slide
  of it, and \<open>same_up_to_order\<close> that two states have the same front piece and the same
  other pieces in some order.
\<close>

definition one_cell_slide :: "State \<Rightarrow> State \<Rightarrow> bool" where
  "one_cell_slide S T =
     (case State_Draw S of
        Inl e \<Rightarrow> False
      | Inr b \<Rightarrow>
          (\<exists>i \<in> set [0..<length (pieces S)]. \<exists>delta \<in> set [- 1, 1].
              legal_move (pieces S ! i) b delta \<and> T = moved S i delta))"

fun slides_ok :: "State list \<Rightarrow> bool" where
  "slides_ok (s # t # rest) = (one_cell_slide s t \<and> slides_ok (t # rest))"
| "slides_ok rest = True"

definition same_up_to_order :: "State \<Rightarrow> State \<Rightarrow> bool" where
  "same_up_to_order S C =
     (case (pieces S, pieces C) of
        (g # xs, h # ys) \<Rightarrow> g = h \<and> mset xs = mset ys
      | _ \<Rightarrow> False)"



text \<open>The cells of a buffer that are not empty.\<close>

definition occupied :: "DrawBuf \<Rightarrow> (int \<times> int) set" where
  "occupied b = {(cx, cy). b cy cx \<noteq> kEmpty}"

text \<open>
  One move of the search: \<open>t\<close> is one of the neighbours that \<open>Neighbors srt s\<close> returns.
  \<open>moves_ok\<close> says that each state of a sequence is followed by one of its neighbours,
  \<open>reach start k t\<close> that \<open>k\<close> moves lead from \<open>start\<close> to \<open>t\<close>, and \<open>state_at_dest\<close> is
  the test of \<open>Solve\<close> on the front piece of a state.
\<close>

definition step :: "sorter \<Rightarrow> State \<Rightarrow> State \<Rightarrow> bool" where
  "step srt s t = (case Neighbors srt s of Inl e \<Rightarrow> False | Inr ns \<Rightarrow> t \<in> set ns)"

fun moves_ok :: "sorter \<Rightarrow> State list \<Rightarrow> bool" where
  "moves_ok srt (s # t # rest) = (step srt s t \<and> moves_ok srt (t # rest))"
| "moves_ok srt rest = True"

fun reach :: "sorter \<Rightarrow> State \<Rightarrow> nat \<Rightarrow> State \<Rightarrow> bool" where
  "reach srt start 0 t = (t = start)"
| "reach srt start (Suc k) t = (\<exists>s. reach srt start k s \<and> step srt s t)"

definition state_at_dest :: "int \<Rightarrow> int \<Rightarrow> State \<Rightarrow> bool" where
  "state_at_dest dx dy s =
     (case pieces s of [] \<Rightarrow> False | front_piece # others \<Rightarrow> at_dest dx dy front_piece)"

text \<open>
  \<^verbatim>\<open>State::operator==\<close> compares the piece vectors, piece by piece with
  \<^verbatim>\<open>Piece::operator==\<close>, which compares the four fields as the equality of the records
  does.
\<close>

definition State_eq :: "State \<Rightarrow> State \<Rightarrow> bool" where
  "State_eq S other = (pieces S = pieces other)"

text \<open>
  The invariant of the \<^verbatim>\<open>while\<close> loop of \<open>Solve\<close>, for the start state \<open>s0\<close>, a queue
  whose front element is the one being expanded, and the level \<open>lv\<close> of every state the
  map holds: the map sends the start state to the sentinel and every other state it holds
  to a state it holds, one move before and one level lower; the level of a state is the
  least number of moves that lead to it; the queue holds states of the map with their
  levels, in ascending order and on at most two levels; a state of the map that is not in
  the queue is not at the destination and has all its neighbours in the map; and the map
  holds every state that is as near as the front of the queue.
\<close>

definition bfs_inv ::
  "sorter \<Rightarrow> State \<Rightarrow> int \<Rightarrow> int \<Rightarrow> (State \<Rightarrow> nat) \<Rightarrow> QueueElem list \<Rightarrow>
   (State \<rightharpoonup> State) \<Rightarrow> bool" where
  "bfs_inv srt s0 dx dy lv q prev \<longleftrightarrow>
     prev s0 = Some \<lparr>pieces = []\<rparr> \<and> lv s0 = 0 \<and> pieces s0 \<noteq> [] \<and>
     (\<forall>s p. prev s = Some p \<and> s \<noteq> s0 \<longrightarrow>
            prev p \<noteq> None \<and> step srt p s \<and> lv s = Suc (lv p)) \<and>
     (\<forall>s. prev s \<noteq> None \<longrightarrow>
          reach srt s0 (lv s) s \<and> (\<forall>k. reach srt s0 k s \<longrightarrow> lv s \<le> k)) \<and>
     (\<forall>e \<in> set q. prev (state e) \<noteq> None \<and> moves e = int (lv (state e))) \<and>
     sorted (map moves q) \<and> (q \<noteq> [] \<longrightarrow> moves (last q) \<le> moves (hd q) + 1) \<and>
     (\<forall>s. prev s \<noteq> None \<and> s \<notin> state ` set q \<longrightarrow>
          \<not> state_at_dest dx dy s \<and> (\<forall>t. step srt s t \<longrightarrow> prev t \<noteq> None)) \<and>
     (q \<noteq> [] \<longrightarrow>
        (\<forall>k t. int k \<le> moves (hd q) \<and> reach srt s0 k t \<longrightarrow> prev t \<noteq> None))"

text \<open>
  The measure of the \<^verbatim>\<open>while\<close> loop of \<open>Solve\<close>: the states as long as a state of the queue
  that the map does not hold yet, and then the length of the queue.
\<close>

definition universe :: "QueueElem list \<Rightarrow> State set" where
  "universe q = {s. \<exists>e \<in> set q. length (pieces s) = length (pieces (state e))}"

definition Solve_measure :: "QueueElem list \<times> (State \<rightharpoonup> State) \<Rightarrow> nat \<times> nat" where
  "Solve_measure = (\<lambda>(q, prev). (card (universe q - dom prev), length q))"

section \<open>The sort of libstdc++\<close>

text \<open>
  One library's \<^verbatim>\<open>std::sort\<close>, that of the GNU C++ library (\<^verbatim>\<open>bits/stl_algo.h\<close>), over
  \<^verbatim>\<open>Piece::operator<\<close>; the vector is a list, an iterator an index into it, and \<open>fin\<close>
  stands for the iterator \<^verbatim>\<open>__last\<close>. \<^verbatim>\<open>std::__sort\<close> runs \<^verbatim>\<open>__introsort_loop\<close> with the depth
  limit \<^verbatim>\<open>2 * __lg(n)\<close>, which partitions every range of more than 16 elements around the
  median of three of its elements, and then \<^verbatim>\<open>__final_insertion_sort\<close>. A range of at most
  16 elements is sorted by \<^verbatim>\<open>__insertion_sort\<close> alone.

  The loops named \<^verbatim>\<open>unguarded\<close> do not test for the end of the range; a result \<open>None\<close>
  says that one of them has left the vector. It also says that the depth limit has come
  down to 0 on a range of more than 16 elements: the library then sorts the range with
  \<^verbatim>\<open>__partial_sort\<close>, a heap sort, which is not followed here.
\<close>

definition iter_swap :: "Piece list \<Rightarrow> nat \<Rightarrow> nat \<Rightarrow> Piece list" where
  "iter_swap v a b = v[a := v ! b, b := v ! a]"

fun lg :: "nat \<Rightarrow> nat" where
  "lg n = (if n < 2 then 0 else Suc (lg (n div 2)))"

declare lg.simps [simp del]

definition move_median_to_first ::
  "Piece list \<Rightarrow> nat \<Rightarrow> nat \<Rightarrow> nat \<Rightarrow> nat \<Rightarrow> Piece list" where
  "move_median_to_first v result a b c =
     (if Piece_less (v ! a) (v ! b) then
        (if Piece_less (v ! b) (v ! c) then iter_swap v result b
         else if Piece_less (v ! a) (v ! c) then iter_swap v result c
         else iter_swap v result a)
      else if Piece_less (v ! a) (v ! c) then iter_swap v result a
      else if Piece_less (v ! b) (v ! c) then iter_swap v result c
      else iter_swap v result b)"

text \<open>
  The two inner loops of \<^verbatim>\<open>__unguarded_partition\<close>:
  \<^verbatim>\<open>while (__comp(__first, __pivot)) ++__first\<close> and
  \<^verbatim>\<open>while (__comp(__pivot, __last)) --__last\<close>.
\<close>

function scan_forward :: "Piece list \<Rightarrow> nat \<Rightarrow> nat \<Rightarrow> nat option" where
  "scan_forward v pivot first =
     (if length v \<le> first then None
      else if Piece_less (v ! first) (v ! pivot) then scan_forward v pivot (Suc first)
      else Some first)"
  by pat_completeness auto
termination
  by (relation "measure (\<lambda>(v, pivot, first). length v - first)") auto

declare scan_forward.simps [simp del]

fun scan_backward :: "Piece list \<Rightarrow> nat \<Rightarrow> nat \<Rightarrow> nat option" where
  "scan_backward v pivot 0 = (if Piece_less (v ! pivot) (v ! 0) then None else Some 0)"
| "scan_backward v pivot (Suc l) =
     (if Piece_less (v ! pivot) (v ! Suc l) then scan_backward v pivot l else Some (Suc l))"

lemma scan_backward_le: "scan_backward v pivot l = Some l' \<Longrightarrow> l' \<le> l"
  by (induction l) (auto split: if_splits)

function unguarded_partition ::
  "Piece list \<Rightarrow> nat \<Rightarrow> nat \<Rightarrow> nat \<Rightarrow> (nat \<times> Piece list) option" where
  "unguarded_partition v first fin pivot =
     (case scan_forward v pivot first of
        None \<Rightarrow> None
      | Some first' \<Rightarrow>
          (if fin = 0 then None
           else (case scan_backward v pivot (fin - 1) of
                   None \<Rightarrow> None
                 | Some fin' \<Rightarrow>
                     if \<not> first' < fin' then Some (first', v)
                     else unguarded_partition (iter_swap v first' fin') (Suc first') fin' pivot)))"
  by pat_completeness auto
termination
proof (relation "measure (\<lambda>(v, first, fin, pivot). fin)")
  show "wf (measure (\<lambda>(v, first, fin, pivot). fin))"
    by simp
next
  fix v :: "Piece list" and first fin pivot first' fin' :: nat
  assume "fin \<noteq> 0" and "scan_backward v pivot (fin - 1) = Some fin'"
  then show "((iter_swap v first' fin', Suc first', fin', pivot), v, first, fin, pivot)
             \<in> measure (\<lambda>(v, first, fin, pivot). fin)"
    using scan_backward_le [of v pivot "fin - 1" fin'] by simp
qed

declare unguarded_partition.simps [simp del]

definition unguarded_partition_pivot ::
  "Piece list \<Rightarrow> nat \<Rightarrow> nat \<Rightarrow> (nat \<times> Piece list) option" where
  "unguarded_partition_pivot v first fin =
     (let mid = first + (fin - first) div 2
      in unguarded_partition (move_median_to_first v first (first + 1) mid (fin - 1))
           (first + 1) fin first)"

function introsort_loop :: "Piece list \<Rightarrow> nat \<Rightarrow> nat \<Rightarrow> nat \<Rightarrow> Piece list option" where
  "introsort_loop v first fin depth_limit =
     (if 16 < fin - first then
        (if depth_limit = 0 then None
         else (case unguarded_partition_pivot v first fin of
                 None \<Rightarrow> None
               | Some (cut_at, v') \<Rightarrow>
                   (case introsort_loop v' cut_at fin (depth_limit - 1) of
                      None \<Rightarrow> None
                    | Some v'' \<Rightarrow> introsort_loop v'' first cut_at (depth_limit - 1))))
      else Some v)"
  by pat_completeness auto
termination
  by (relation "measure (\<lambda>(v, first, fin, depth_limit). depth_limit)") auto

declare introsort_loop.simps [simp del]

text \<open>
  \<^verbatim>\<open>__unguarded_linear_insert\<close> with the value \<open>val\<close> taken from the place \<open>Suc next\<close>, and
  the two branches of the loop of \<^verbatim>\<open>__insertion_sort\<close>: \<open>move_to_first\<close> is
  \<^verbatim>\<open>move_backward(__first, __i, __i + 1)\<close> followed by \<^verbatim>\<open>*__first = __val\<close>. The last
  argument of the two loops counts the iterations left.
\<close>

fun unguarded_linear_insert :: "Piece list \<Rightarrow> Piece \<Rightarrow> nat \<Rightarrow> Piece list option" where
  "unguarded_linear_insert v val 0 = None"
| "unguarded_linear_insert v val (Suc next) =
     (if Piece_less val (v ! next)
      then unguarded_linear_insert (v[Suc next := v ! next]) val next
      else Some (v[Suc next := val]))"

definition move_to_first :: "Piece list \<Rightarrow> nat \<Rightarrow> nat \<Rightarrow> Piece list" where
  "move_to_first v first i =
     take first v @ [v ! i] @ take (i - first) (drop first v) @ drop (Suc i) v"

fun insertion_sort_loop :: "Piece list \<Rightarrow> nat \<Rightarrow> nat \<Rightarrow> nat \<Rightarrow> Piece list option" where
  "insertion_sort_loop v first i 0 = Some v"
| "insertion_sort_loop v first i (Suc n) =
     (case (if Piece_less (v ! i) (v ! first) then Some (move_to_first v first i)
            else unguarded_linear_insert v (v ! i) i) of
        None \<Rightarrow> None
      | Some v' \<Rightarrow> insertion_sort_loop v' first (Suc i) n)"

definition libstdcxx_insertion_sort :: "Piece list \<Rightarrow> nat \<Rightarrow> nat \<Rightarrow> Piece list option" where
  "libstdcxx_insertion_sort v first fin =
     (if first = fin then Some v
      else insertion_sort_loop v first (first + 1) (fin - (first + 1)))"

fun unguarded_insertion_sort :: "Piece list \<Rightarrow> nat \<Rightarrow> nat \<Rightarrow> Piece list option" where
  "unguarded_insertion_sort v i 0 = Some v"
| "unguarded_insertion_sort v i (Suc n) =
     (case unguarded_linear_insert v (v ! i) i of
        None \<Rightarrow> None
      | Some v' \<Rightarrow> unguarded_insertion_sort v' (Suc i) n)"

definition final_insertion_sort :: "Piece list \<Rightarrow> nat \<Rightarrow> nat \<Rightarrow> Piece list option" where
  "final_insertion_sort v first fin =
     (if 16 < fin - first then
        (case libstdcxx_insertion_sort v first (first + 16) of
           None \<Rightarrow> None
         | Some v' \<Rightarrow> unguarded_insertion_sort v' (first + 16) (fin - (first + 16)))
      else libstdcxx_insertion_sort v first fin)"

definition libstdcxx_sort :: "Piece list \<Rightarrow> Piece list option" where
  "libstdcxx_sort v =
     (if v = [] then Some v
      else (case introsort_loop v 0 (length v) (lg (length v) * 2) of
              None \<Rightarrow> None
            | Some v' \<Rightarrow> final_insertion_sort v' 0 (length v')))"

text \<open>
  The sorter that returns what \<open>libstdcxx_sort\<close> returns. That the functions above sort
  is not proved here; so the sorter checks what they return, and where that is \<open>None\<close>, or
  no sorted permutation of the list, it returns the insertion sort of the list.
\<close>

definition is_sort_of :: "Piece list \<Rightarrow> Piece list \<Rightarrow> bool" where
  "is_sort_of xs ys = (mset ys = mset xs \<and> sorted_wrt (\<lambda>a b. \<not> Piece_less b a) ys)"

lift_definition libstdcxx_sorter :: sorter is
  "\<lambda>xs. case libstdcxx_sort xs of
           None \<Rightarrow> insertion_sort xs
         | Some ys \<Rightarrow> if is_sort_of xs ys then ys else insertion_sort xs"
  using sorts_insertion_sort
  by (auto simp: sorts_def is_sort_of_def split: option.splits)

section \<open>Example inputs\<close>

text \<open>
  One horizontal piece in the top left corner, the state that holds it alone, the buffer
  that state renders to and the state's only neighbour; and the puzzle of \<^verbatim>\<open>main\<close>.
\<close>

definition P1 :: Piece where "P1 = mk_Piece 0 0 2 kHoriz"
definition S1 :: State where "S1 = \<lparr>pieces = [P1]\<rparr>"
definition B1 :: DrawBuf where "B1 = buf_set (buf_set empty_buf 0 0 CHR ''*'') 0 1 CHR ''*''"

definition N1 :: State where "N1 = \<lparr>pieces = [mk_Piece 1 0 2 kHoriz]\<rparr>"

definition S_main :: State where
  "S_main = \<lparr>pieces =
     [mk_Piece 0 2 2 kHoriz, mk_Piece 3 0 2 kVert, mk_Piece 4 0 2 kHoriz, mk_Piece 4 1 2 kHoriz,
      mk_Piece 3 2 2 kVert, mk_Piece 0 4 2 kVert, mk_Piece 1 4 2 kVert, mk_Piece 3 4 2 kHoriz,
      mk_Piece 5 3 2 kVert]\<rparr>"

text \<open>
  A goal piece and four others; \<open>A2\<close> and \<open>B2\<close> have the same corner cell and differ in
  their orientation.
\<close>

definition G2 :: Piece where "G2 = mk_Piece 0 2 2 kHoriz"
definition A2 :: Piece where "A2 = mk_Piece 3 0 2 kHoriz"
definition B2 :: Piece where "B2 = mk_Piece 3 0 2 kVert"
definition C2 :: Piece where "C2 = mk_Piece 3 4 2 kHoriz"
definition D2 :: Piece where "D2 = mk_Piece 1 3 2 kVert"

text \<open>
  The corner piece two cells to the right; a state in which two pieces cover the same
  cell; and the five states of the board that holds the corner piece alone.
\<close>

definition M1 :: State where "M1 = \<lparr>pieces = [mk_Piece 2 0 2 kHoriz]\<rparr>"
definition S_clash :: State where "S_clash = \<lparr>pieces = [G2, A2, B2]\<rparr>"
definition row_states :: "State list" where
  "row_states = map (\<lambda>k. \<lparr>pieces = [mk_Piece k 0 2 kHoriz]\<rparr>) [0, 1, 2, 3, 4]"

text \<open>
  Two pieces of one cell at the position \<open>(0, 0)\<close> that differ in their orientation, and
  fifteen pieces of one cell at other positions, in ascending order; and the two states of
  eighteen pieces that hold the goal piece \<open>G2\<close>, the two pieces in either order, and the
  fifteen. \<open>S_deg\<close> holds the goal piece and two pieces of size 0 at one position.
  \<open>W2\<close> is a state of three pieces that cover no cell twice, and \<open>W2'\<close> the state after
  its goal piece has moved one cell to the right.
\<close>

definition T_H :: Piece where "T_H = mk_Piece 0 0 1 kHoriz"
definition T_V :: Piece where "T_V = mk_Piece 0 0 1 kVert"
definition tied_rest :: "Piece list" where
  "tied_rest =
     [mk_Piece 1 0 1 kHoriz, mk_Piece 2 0 1 kHoriz, mk_Piece 3 0 1 kHoriz, mk_Piece 4 0 1 kHoriz,
      mk_Piece 5 0 1 kHoriz, mk_Piece 0 1 1 kHoriz, mk_Piece 1 1 1 kHoriz, mk_Piece 2 1 1 kHoriz,
      mk_Piece 3 1 1 kHoriz, mk_Piece 4 1 1 kHoriz, mk_Piece 5 1 1 kHoriz, mk_Piece 0 3 1 kHoriz,
      mk_Piece 1 3 1 kHoriz, mk_Piece 2 3 1 kHoriz, mk_Piece 3 3 1 kHoriz]"
definition Z_H :: Piece where "Z_H = mk_Piece 3 0 0 kHoriz"
definition Z_V :: Piece where "Z_V = mk_Piece 3 0 0 kVert"
definition S_deg :: State where "S_deg = \<lparr>pieces = [G2, Z_H, Z_V]\<rparr>"
definition S_tied :: State where "S_tied = \<lparr>pieces = G2 # T_H # T_V # tied_rest\<rparr>"
definition S_tied' :: State where "S_tied' = \<lparr>pieces = G2 # T_V # T_H # tied_rest\<rparr>"

section \<open>The search loop terminates\<close>

lemma UNIV_Orient: "(UNIV :: Orient set) = {kHoriz, kVert}"
  using Orient.exhaust by auto

lemma finite_Piece: "finite (UNIV :: Piece set)"
proof -
  have "(UNIV :: Piece set) =
        (\<lambda>(a, b, c, d). \<lparr>piece_x = a, piece_y = b, piece_size = c, piece_orient = d\<rparr>) ` UNIV"
  proof -
    have "p \<in> (\<lambda>(a, b, c, d). \<lparr>piece_x = a, piece_y = b, piece_size = c, piece_orient = d\<rparr>) ` UNIV"
      for p :: Piece
      by (rule image_eqI [where x = "(piece_x p, piece_y p, piece_size p, piece_orient p)"]) auto
    then show ?thesis by blast
  qed
  moreover have "finite (UNIV :: (8 word \<times> 8 word \<times> 8 word \<times> Orient) set)"
    by (simp add: finite_prod UNIV_Orient)
  ultimately show ?thesis
    by (metis finite_imageI)
qed

lemma finite_States_of_length: "finite {s :: State. length (pieces s) = n}"
proof -
  have "finite {ps :: Piece list. set ps \<subseteq> UNIV \<and> length ps = n}"
    by (rule finite_lists_length_eq) (rule finite_Piece)
  then have "finite ((\<lambda>ps. \<lparr>pieces = ps\<rparr>) ` {ps :: Piece list. length ps = n})"
    by simp
  moreover have "{s :: State. length (pieces s) = n} \<subseteq>
                 (\<lambda>ps. \<lparr>pieces = ps\<rparr>) ` {ps :: Piece list. length ps = n}"
  proof
    fix s :: State
    assume "s \<in> {s. length (pieces s) = n}"
    then show "s \<in> (\<lambda>ps. \<lparr>pieces = ps\<rparr>) ` {ps :: Piece list. length ps = n}"
      by (intro image_eqI [where x = "pieces s"]) auto
  qed
  ultimately show ?thesis
    by (rule rev_finite_subset)
qed

lemma std_sort_sorts: "sorts (std_sort srt)"
  using std_sort [of srt] by simp

lemma mset_std_sort [simp]: "mset (std_sort srt ps) = mset ps"
  using std_sort_sorts [of srt] by (simp add: sorts_def)

lemma length_std_sort [simp]: "length (std_sort srt ps) = length ps"
  using mset_std_sort [of srt ps] by (metis size_mset)

lemma Canonicalize_length:
  "Canonicalize srt S = Inr S' \<Longrightarrow> length (pieces S') = length (pieces S)"
  by (auto simp: Canonicalize_def split: list.splits)

lemma moved_length [simp]: "length (pieces (moved S i d)) = length (pieces S)"
  by (simp add: moved_def)

lemma Neighbors_deltas_length:
  "Neighbors_deltas srt S i ds = Inr ns \<Longrightarrow> t \<in> set ns \<Longrightarrow> length (pieces t) = length (pieces S)"
proof (induction ds arbitrary: ns)
  case Nil
  then show ?case by simp
next
  case (Cons d ds)
  then show ?case
    by (auto split: if_splits sum.splits dest!: Canonicalize_length)
qed

lemma Neighbors_loop_length:
  "Neighbors_loop srt S b i ps = Inr ns \<Longrightarrow> t \<in> set ns \<Longrightarrow> length (pieces t) = length (pieces S)"
proof (induction ps arbitrary: i ns)
  case Nil
  then show ?case by simp
next
  case (Cons p ps)
  then show ?case
    by (auto split: sum.splits prod.splits dest: Neighbors_deltas_length)
qed

lemma Neighbors_length:
  "Neighbors srt S = Inr ns \<Longrightarrow> t \<in> set ns \<Longrightarrow> length (pieces t) = length (pieces S)"
  by (auto simp: Neighbors_def split: sum.splits dest: Neighbors_loop_length)

lemma enqueue_new_dom: "dom (snd (enqueue_new e ns (q, prev))) = dom prev \<union> set ns"
  by (induction ns arbitrary: q prev) auto

lemma enqueue_new_states:
  "state ` set (fst (enqueue_new e ns (q, prev))) \<subseteq> state ` set q \<union> set ns"
proof (induction ns arbitrary: q prev)
  case Nil
  then show ?case by simp
next
  case (Cons n ns)
  show ?case
  proof (cases "prev n = None")
    case True
    have "state ` set (fst (enqueue_new e ns
            (q @ [\<lparr>state = n, moves = moves e + 1\<rparr>], prev(n \<mapsto> state e))))
          \<subseteq> state ` set (q @ [\<lparr>state = n, moves = moves e + 1\<rparr>]) \<union> set ns"
      by (rule Cons.IH)
    then show ?thesis
      using True by auto
  next
    case False
    then show ?thesis
      using Cons.IH [of q prev] by auto
  qed
qed

lemma enqueue_new_same: "set ns \<subseteq> dom prev \<Longrightarrow> enqueue_new e ns (q, prev) = (q, prev)"
  by (induction ns arbitrary: q prev) auto

lemma finite_universe: "finite (universe q)"
proof -
  have "universe q = (\<Union>e \<in> set q. {s. length (pieces s) = length (pieces (state e))})"
    by (auto simp: universe_def)
  then show ?thesis
    by (simp add: finite_States_of_length)
qed

lemma Solve_loop_decreases:
  assumes "Neighbors srt (state elem) = Inr ns"
  shows "(Solve_measure (enqueue_new elem ns (q, prev)), Solve_measure (elem # q, prev))
         \<in> less_than <*lex*> less_than"
proof -
  obtain q' prev' where r: "enqueue_new elem ns (q, prev) = (q', prev')"
    by (cases "enqueue_new elem ns (q, prev)")
  have dom': "dom prev' = dom prev \<union> set ns"
    using enqueue_new_dom [of elem ns q prev] r by simp
  have "state ` set q' \<subseteq> state ` set q \<union> set ns"
    using enqueue_new_states [of elem ns q prev] r by simp
  then have uni: "universe q' \<subseteq> universe (elem # q)"
    using Neighbors_length [OF assms] unfolding universe_def by fastforce
  have sub: "universe q' - dom prev' \<subseteq> universe (elem # q) - dom prev"
    using uni dom' by blast
  show ?thesis
  proof (cases "set ns \<subseteq> dom prev")
    case True
    then have "q' = q" "prev' = prev"
      using enqueue_new_same [of ns prev elem q] r by simp_all
    moreover have "card (universe q - dom prev) \<le> card (universe (elem # q) - dom prev)"
      using finite_universe [of "elem # q"] by (intro card_mono) (auto simp: universe_def)
    ultimately show ?thesis
      using r by (auto simp: Solve_measure_def)
  next
    case False
    then obtain t where t: "t \<in> set ns" "t \<notin> dom prev"
      by blast
    have "t \<in> universe (elem # q)"
      using Neighbors_length [OF assms t(1)] by (auto simp: universe_def)
    then have "t \<in> universe (elem # q) - dom prev" "t \<notin> universe q' - dom prev'"
      using t dom' by auto
    then have "universe q' - dom prev' \<subset> universe (elem # q) - dom prev"
      using sub by blast
    then have "card (universe q' - dom prev') < card (universe (elem # q) - dom prev)"
      by (intro psubset_card_mono) (simp_all add: finite_universe)
    then show ?thesis
      using r by (simp add: Solve_measure_def)
  qed
qed

termination Solve_loop
proof (relation "inv_image (less_than <*lex*> less_than)
                   (\<lambda>(srt, dx, dy, q, prev). Solve_measure (q, prev))")
  show "wf (inv_image (less_than <*lex*> less_than)
              (\<lambda>(srt, dx, dy, q, prev). Solve_measure (q, prev)))"
    by (rule wf_inv_image) (simp add: wf_lex_prod)
next
  fix srt :: sorter and dx dy :: int and elem :: QueueElem and q :: "QueueElem list"
    and prev :: "State \<rightharpoonup> State" and front_piece others ns
  assume "Neighbors srt (state elem) = Inr ns"
  then show "((srt, dx, dy, fst (enqueue_new elem ns (q, prev)),
               snd (enqueue_new elem ns (q, prev))),
              srt, dx, dy, elem # q, prev)
             \<in> inv_image (less_than <*lex*> less_than)
                 (\<lambda>(srt, dx, dy, q, prev). Solve_measure (q, prev))"
    using Solve_loop_decreases [of srt elem ns q prev] by simp
qed

declare Solve_loop.simps [simp del]

section \<open>Rendering, movement ranges and neighbours\<close>

lemma cells_iff:
  "(cx, cy) \<in> set (cells p) \<longleftrightarrow>
     (if piece_orient p = kHoriz
      then cy = sint (piece_y p) \<and> sint (piece_x p) \<le> cx \<and> cx < sint (piece_x p) + sint (piece_size p)
      else cx = sint (piece_x p) \<and> sint (piece_y p) \<le> cy \<and> cy < sint (piece_y p) + sint (piece_size p))"
proof -
  have *: "(\<exists>k < nat n. c = a + int k) \<longleftrightarrow> a \<le> c \<and> c < a + n" for c a n :: int
  proof
    assume "\<exists>k < nat n. c = a + int k"
    then show "a \<le> c \<and> c < a + n" by auto
  next
    assume "a \<le> c \<and> c < a + n"
    then have "nat (c - a) < nat n" "c = a + int (nat (c - a))" by auto
    then show "\<exists>k < nat n. c = a + int k" by blast
  qed
  have mem: "(cx, cy) \<in> set (cells p) \<longleftrightarrow>
        (\<exists>k < nat (sint (piece_size p)).
            (cx, cy) = (if piece_orient p = kHoriz then (sint (piece_x p) + int k, sint (piece_y p))
                        else (sint (piece_x p), sint (piece_y p) + int k)))"
    by (auto simp: cells_def image_iff)
  show ?thesis
  proof (cases "piece_orient p = kHoriz")
    case True
    have "(cx, cy) \<in> set (cells p) \<longleftrightarrow>
          cy = sint (piece_y p) \<and> (\<exists>k < nat (sint (piece_size p)). cx = sint (piece_x p) + int k)"
      unfolding mem using True by auto
    then show ?thesis
      using True by (simp add: *)
  next
    case False
    have "(cx, cy) \<in> set (cells p) \<longleftrightarrow>
          cx = sint (piece_x p) \<and> (\<exists>k < nat (sint (piece_size p)). cy = sint (piece_y p) + int k)"
      unfolding mem using False by auto
    then show ?thesis
      using False by (simp add: *)
  qed
qed

lemma distinct_cells: "distinct (cells p)"
  by (auto simp: cells_def distinct_map inj_on_def)

lemma cells_Nil_iff: "cells p = [] \<longleftrightarrow> sint (piece_size p) < 1"
  by (auto simp: cells_def)

lemma in_bounds_iff:
  "in_bounds p \<longleftrightarrow>
     1 \<le> sint (piece_size p) \<and> 0 \<le> sint (piece_x p) \<and> 0 \<le> sint (piece_y p) \<and>
     (if piece_orient p = kHoriz
      then sint (piece_x p) + sint (piece_size p) \<le> kBoardSize \<and> sint (piece_y p) < kBoardSize
      else sint (piece_x p) < kBoardSize \<and> sint (piece_y p) + sint (piece_size p) \<le> kBoardSize)"
  (is "?L \<longleftrightarrow> ?R")
proof
  assume L: ?L
  then have sz: "1 \<le> sint (piece_size p)"
    by (simp add: in_bounds_def cells_Nil_iff)
  have all: "(cx, cy) \<in> set (cells p) \<Longrightarrow> in_buf cy cx" for cx cy
    using L by (auto simp: in_bounds_def list_all_iff)
  show ?R
  proof (cases "piece_orient p = kHoriz")
    case True
    have "(sint (piece_x p), sint (piece_y p)) \<in> set (cells p)"
         "(sint (piece_x p) + sint (piece_size p) - 1, sint (piece_y p)) \<in> set (cells p)"
      using sz True by (simp_all add: cells_iff)
    from this [THEN all] show ?thesis
      using sz True by (simp add: in_buf_def)
  next
    case False
    have "(sint (piece_x p), sint (piece_y p)) \<in> set (cells p)"
         "(sint (piece_x p), sint (piece_y p) + sint (piece_size p) - 1) \<in> set (cells p)"
      using sz False by (simp_all add: cells_iff)
    from this [THEN all] show ?thesis
      using sz False by (simp add: in_buf_def)
  qed
next
  assume ?R
  then show ?L
    by (auto simp: in_bounds_def cells_Nil_iff list_all_iff cells_iff in_buf_def split: if_splits)
qed

lemma Draw_loop_ok:
  assumes "\<forall>k<n. in_buf (if orient = kHoriz then cy else cy + int k)
                        (if orient = kHoriz then cx + int k else cx) \<and>
                 buf (if orient = kHoriz then cy else cy + int k)
                     (if orient = kHoriz then cx + int k else cx) = kEmpty"
  shows "\<exists>b'. Draw_loop n orient c cx cy buf = Inr b' \<and>
           (\<forall>y x. b' y x =
              (if \<exists>k<n. (x, y) = (if orient = kHoriz then (cx + int k, cy) else (cx, cy + int k))
               then c else buf y x))"
  using assms
proof (induction n arbitrary: cx cy buf)
  case 0
  then show ?case by simp
next
  case (Suc n)
  let ?cx' = "if orient = kHoriz then cx + 1 else cx"
  let ?cy' = "if orient = kHoriz then cy else cy + 1"
  let ?buf' = "buf_set buf cy cx c"
  from Suc.prems [rule_format, of 0]
  have first: "in_buf cy cx" "buf cy cx = kEmpty"
    by (simp_all split: if_splits)
  have rest: "\<forall>k<n. in_buf (if orient = kHoriz then ?cy' else ?cy' + int k)
                        (if orient = kHoriz then ?cx' + int k else ?cx') \<and>
                 ?buf' (if orient = kHoriz then ?cy' else ?cy' + int k)
                     (if orient = kHoriz then ?cx' + int k else ?cx') = kEmpty"
  proof (intro allI impI)
    fix k assume "k < n"
    then have "Suc k < Suc n" by simp
    from Suc.prems [rule_format, OF this]
    show "in_buf (if orient = kHoriz then ?cy' else ?cy' + int k)
                        (if orient = kHoriz then ?cx' + int k else ?cx') \<and>
                 ?buf' (if orient = kHoriz then ?cy' else ?cy' + int k)
                     (if orient = kHoriz then ?cx' + int k else ?cx') = kEmpty"
      by (auto simp: buf_set_def algebra_simps)
  qed
  from Suc.IH [OF rest] obtain b' where
    b': "Draw_loop n orient c ?cx' ?cy' ?buf' = Inr b'"
      "\<And>y x. b' y x =
              (if \<exists>k<n. (x, y) = (if orient = kHoriz then (?cx' + int k, ?cy') else (?cx', ?cy' + int k))
               then c else ?buf' y x)"
    by blast
  have "Draw_loop (Suc n) orient c cx cy buf = Inr b'"
    using first b'(1) by simp
  moreover have "b' y x =
              (if \<exists>k<Suc n. (x, y) = (if orient = kHoriz then (cx + int k, cy) else (cx, cy + int k))
               then c else buf y x)" for y x
  proof -
    have "(\<exists>k<Suc n. (x, y) = (if orient = kHoriz then (cx + int k, cy) else (cx, cy + int k)))
          \<longleftrightarrow> (x, y) = (cx, cy) \<or>
              (\<exists>k<n. (x, y) = (if orient = kHoriz then (?cx' + int k, ?cy') else (?cx', ?cy' + int k)))"
      (is "?A \<longleftrightarrow> ?B \<or> ?C")
    proof
      assume ?A
      then obtain k where k: "k < Suc n"
        "(x, y) = (if orient = kHoriz then (cx + int k, cy) else (cx, cy + int k))" by blast
      show "?B \<or> ?C"
      proof (cases k)
        case 0
        then show ?thesis using k by (simp split: if_splits)
      next
        case (Suc j)
        then have "j < n" using k by simp
        moreover have "(x, y) = (if orient = kHoriz then (?cx' + int j, ?cy') else (?cx', ?cy' + int j))"
          using k Suc by (simp split: if_splits)
        ultimately show ?thesis by blast
      qed
    next
      assume "?B \<or> ?C"
      then show ?A
      proof
        assume ?B
        then have "(x, y) = (if orient = kHoriz then (cx + int 0, cy) else (cx, cy + int 0))" by simp
        then show ?A by blast
      next
        assume ?C
        then obtain j where j: "j < n"
          "(x, y) = (if orient = kHoriz then (?cx' + int j, ?cy') else (?cx', ?cy' + int j))" by blast
        then have "Suc j < Suc n"
          "(x, y) = (if orient = kHoriz then (cx + int (Suc j), cy) else (cx, cy + int (Suc j)))"
          by (simp_all split: if_splits)
        then show ?A by blast
      qed
    qed
    then show ?thesis
      unfolding b'(2) by (auto simp: buf_set_def)
  qed
  ultimately show ?case by blast
qed

lemma Piece_Draw_ok:
  assumes "in_bounds p" and "\<forall>(cx, cy) \<in> set (cells p). buf cy cx = kEmpty"
  shows "\<exists>b'. Piece_Draw p c buf = Inr b' \<and>
           (\<forall>y x. b' y x = (if (x, y) \<in> set (cells p) then c else buf y x))"
proof -
  let ?n = "nat (sint (piece_size p))"
  have mem: "(x, y) \<in> set (cells p) \<longleftrightarrow>
        (\<exists>k < ?n. (x, y) = (if piece_orient p = kHoriz then (sint (piece_x p) + int k, sint (piece_y p))
                             else (sint (piece_x p), sint (piece_y p) + int k)))" for x y
    by (auto simp: cells_def image_iff)
  have "\<forall>k < ?n. in_buf (if piece_orient p = kHoriz then sint (piece_y p) else sint (piece_y p) + int k)
                        (if piece_orient p = kHoriz then sint (piece_x p) + int k else sint (piece_x p)) \<and>
                 buf (if piece_orient p = kHoriz then sint (piece_y p) else sint (piece_y p) + int k)
                     (if piece_orient p = kHoriz then sint (piece_x p) + int k else sint (piece_x p)) = kEmpty"
  proof (intro allI impI)
    fix k assume k: "k < ?n"
    let ?c = "if piece_orient p = kHoriz then (sint (piece_x p) + int k, sint (piece_y p))
              else (sint (piece_x p), sint (piece_y p) + int k)"
    have "?c \<in> set (cells p)"
      using k by (auto simp: cells_def)
    then have "in_buf (snd ?c) (fst ?c)" "buf (snd ?c) (fst ?c) = kEmpty"
      using assms by (auto simp: in_bounds_def list_all_iff)
    then show "in_buf (if piece_orient p = kHoriz then sint (piece_y p) else sint (piece_y p) + int k)
                        (if piece_orient p = kHoriz then sint (piece_x p) + int k else sint (piece_x p)) \<and>
                 buf (if piece_orient p = kHoriz then sint (piece_y p) else sint (piece_y p) + int k)
                     (if piece_orient p = kHoriz then sint (piece_x p) + int k else sint (piece_x p)) = kEmpty"
      by (simp split: if_splits)
  qed
  from Draw_loop_ok [OF this, of c]
  show ?thesis
    unfolding Piece_Draw_def mem by blast
qed

lemma marker_not_empty: "i < 237 \<Longrightarrow> marker i \<noteq> kEmpty"
proof (cases "i = 0")
  case True
  then show ?thesis by (simp add: marker_def kEmpty_def)
next
  case False
  assume i: "i < 237"
  have "(65 + int i) mod 256 \<noteq> 46"
  proof (cases "65 + int i < 256")
    case True
    then show ?thesis by simp
  next
    case False
    then have "(65 + int i) mod 256 = 65 + int i - 256"
      using i by (simp add: mod_pos_geq)
    then show ?thesis using i by simp
  qed
  then have "(of_char (char_of (65 + int i)) :: int) \<noteq> of_char CHR ''.''"
    by (simp add: of_char_of)
  then have "char_of (65 + int i) \<noteq> CHR ''.''"
    by metis
  then show ?thesis
    using False by (simp add: marker_def kEmpty_def)
qed

lemma occupied_Piece_Draw:
  assumes "in_bounds p" and "set (cells p) \<inter> occupied buf = {}" and "c \<noteq> kEmpty"
  shows "\<exists>b'. Piece_Draw p c buf = Inr b' \<and> occupied b' = occupied buf \<union> set (cells p)"
proof -
  have "\<forall>(cx, cy) \<in> set (cells p). buf cy cx = kEmpty"
    using assms(2) by (auto simp: occupied_def)
  from Piece_Draw_ok [OF assms(1) this, of c] obtain b' where
    b': "Piece_Draw p c buf = Inr b'"
        "\<And>y x. b' y x = (if (x, y) \<in> set (cells p) then c else buf y x)"
    by blast
  have "occupied b' = occupied buf \<union> set (cells p)"
    using assms(3) by (auto simp: occupied_def b'(2))
  then show ?thesis using b'(1) by blast
qed

lemma Draw_pieces_ok:
  assumes "list_all in_bounds ps" and "distinct (concat (map cells ps))"
    and "set (concat (map cells ps)) \<inter> occupied b = {}" and "i + length ps \<le> 237"
  shows "\<exists>b'. Draw_pieces i ps b = Inr b' \<and> occupied b' = occupied b \<union> set (concat (map cells ps))"
  using assms
proof (induction ps arbitrary: i b)
  case Nil
  then show ?case by simp
next
  case (Cons p ps)
  have "i < 237"
    using Cons.prems(4) by simp
  then have "marker i \<noteq> kEmpty"
    by (rule marker_not_empty)
  moreover have "in_bounds p" "set (cells p) \<inter> occupied b = {}"
    using Cons.prems by auto
  ultimately have "in_bounds p" "set (cells p) \<inter> occupied b = {}" "marker i \<noteq> kEmpty"
    by blast+
  from occupied_Piece_Draw [OF this] obtain b1 where
    b1: "Piece_Draw p (marker i) b = Inr b1" "occupied b1 = occupied b \<union> set (cells p)"
    by blast
  have "list_all in_bounds ps" "distinct (concat (map cells ps))"
       "set (concat (map cells ps)) \<inter> occupied b1 = {}" "Suc i + length ps \<le> 237"
    using Cons.prems b1(2) by auto
  from Cons.IH [OF this] obtain b' where
    "Draw_pieces (Suc i) ps b1 = Inr b'"
    "occupied b' = occupied b1 \<union> set (concat (map cells ps))"
    by blast
  then show ?case
    using b1 by auto
qed

lemma length_le_concat:
  "\<forall>x \<in> set xs. f x \<noteq> [] \<Longrightarrow> length xs \<le> length (concat (map f xs))"
proof (induction xs)
  case Nil
  then show ?case by simp
next
  case (Cons x xs)
  then have "1 \<le> length (f x)"
    by (cases "f x") simp_all
  then show ?case using Cons by simp
qed

lemma valid_state_length: 
  assumes "valid_state S"
  shows "length (pieces S) \<le> 36"
proof -
  let ?cs = "concat (map cells (pieces S))"
  have inb: "\<forall>p \<in> set (pieces S). in_bounds p"
    using assms by (simp add: valid_state_def list_all_iff)
  have "set ?cs \<subseteq> {0..5} \<times> {0..5}"
    using inb by (fastforce simp: in_bounds_def list_all_iff in_buf_def kBoardSize_def)
  then have "card (set ?cs) \<le> card ({0..5::int} \<times> {0..5::int})"
    by (intro card_mono) simp_all
  moreover have "distinct ?cs"
    using assms by (simp add: valid_state_def no_overlap_def)
  then have "card (set ?cs) = length ?cs"
    by (rule distinct_card)
  moreover have "length (pieces S) \<le> length ?cs"
    using inb by (intro length_le_concat) (simp add: in_bounds_def)
  ultimately show ?thesis by simp
qed

lemma occupied_empty_buf [simp]: "occupied empty_buf = {}"
  by (simp add: occupied_def empty_buf_def)

lemma State_Draw_valid:
  assumes "valid_state S"
  shows "\<exists>b. State_Draw S = Inr b \<and> occupied b = set (concat (map cells (pieces S)))"
proof -
  have "0 + length (pieces S) \<le> 237"
    using valid_state_length [OF assms] by simp
  from Draw_pieces_ok [OF _ _ _ this, of empty_buf] show ?thesis
    using assms by (simp add: valid_state_def no_overlap_def State_Draw_def)
qed

lemma scan_down_0:
  "scan_down cell 0 cur =
     (if cur \<ge> 0 then
        (case cell cur of Inl e \<Rightarrow> Inl e | Inr c \<Rightarrow> if c = kEmpty then Inr (- 1) else Inr 0)
      else Inr 0)"
  by (simp add: scan_down.simps [of _ 0] scan_down.simps [of _ "- 1"] split: sum.splits)

lemma scan_up_0:
  "scan_up cell 0 cur =
     (if cur < kBoardSize then
        (case cell cur of Inl e \<Rightarrow> Inl e | Inr c \<Rightarrow> if c = kEmpty then Inr 1 else Inr 0)
      else Inr 0)"
  by (simp add: scan_up.simps [of _ 0] scan_up.simps [of _ 1] split: sum.splits)

lemma sint_word_of_int_8: "- 128 \<le> k \<Longrightarrow> k < 128 \<Longrightarrow> sint (word_of_int k :: 8 word) = k"
  by (simp add: sint_sbintrunc' signed_take_bit_int_eq_self)

lemma MovementRange_in_bounds:
  assumes "in_bounds p"
  shows "MovementRange p buf =
           Inr (if free_cell buf (cell_before p) then - 1 else 0,
                if free_cell buf (cell_after p) then 1 else 0)"
proof -
  have b: "1 \<le> sint (piece_size p)" "0 \<le> sint (piece_x p)" "0 \<le> sint (piece_y p)"
    "sint (piece_x p) < 6" "sint (piece_y p) < 6"
    "piece_orient p = kHoriz \<Longrightarrow> sint (piece_x p) + sint (piece_size p) \<le> 6"
    "piece_orient p \<noteq> kHoriz \<Longrightarrow> sint (piece_y p) + sint (piece_size p) \<le> 6"
    using assms by (auto simp: in_bounds_iff kBoardSize_def split: if_splits)
  show ?thesis
  proof (cases "piece_orient p = kHoriz")
    case True
    then show ?thesis
      using b by (auto simp: MovementRange_def scan_both_def scan_down_0 scan_up_0 buf_get_def
          in_buf_def free_cell_def cell_before_def cell_after_def kBoardSize_def)
  next
    case False
    then show ?thesis
      using b by (auto simp: MovementRange_def scan_both_def scan_down_0 scan_up_0 buf_get_def
          in_buf_def free_cell_def cell_before_def cell_after_def kBoardSize_def)
  qed
qed

lemma MovementRange_cases:
  "(\<exists>lo hi. MovementRange p buf = Inr (lo, hi) \<and> - 1 \<le> lo \<and> lo \<le> 0 \<and> 0 \<le> hi \<and> hi \<le> 1) \<or>
   MovementRange p buf = Inl OutOfRange"
  by (auto simp: MovementRange_def scan_both_def scan_down_0 scan_up_0 buf_get_def)

lemma Move_back:
  assumes "in_bounds p" and "in_buf (snd (cell_before p)) (fst (cell_before p))"
  shows "in_bounds (Move p (- 1))"
    and "set (cells (Move p (- 1))) \<subseteq> insert (cell_before p) (set (cells p))"
proof -
  have b: "1 \<le> sint (piece_size p)" "0 \<le> sint (piece_x p)" "0 \<le> sint (piece_y p)"
    "sint (piece_x p) < 6" "sint (piece_y p) < 6"
    using assms(1) by (auto simp: in_bounds_iff kBoardSize_def split: if_splits)
  have "sint (word_of_int (sint (piece_x p) - 1) :: 8 word) = sint (piece_x p) - 1"
    using b by (intro sint_word_of_int_8) simp_all
  then have sx: "sint (piece_x p - 1) = sint (piece_x p) - 1"
    by simp
  have "sint (word_of_int (sint (piece_y p) - 1) :: 8 word) = sint (piece_y p) - 1"
    using b by (intro sint_word_of_int_8) simp_all
  then have sy: "sint (piece_y p - 1) = sint (piece_y p) - 1"
    by simp
  show "in_bounds (Move p (- 1))"
    using assms by (auto simp: in_bounds_iff Move_def sx sy cell_before_def in_buf_def)
  show "set (cells (Move p (- 1))) \<subseteq> insert (cell_before p) (set (cells p))"
    by (auto simp: cells_iff Move_def sx sy cell_before_def split: if_splits)
qed

lemma Move_forward:
  assumes "in_bounds p" and "in_buf (snd (cell_after p)) (fst (cell_after p))"
  shows "in_bounds (Move p 1)"
    and "set (cells (Move p 1)) \<subseteq> insert (cell_after p) (set (cells p))"
proof -
  have b: "1 \<le> sint (piece_size p)" "0 \<le> sint (piece_x p)" "0 \<le> sint (piece_y p)"
    "sint (piece_x p) < 6" "sint (piece_y p) < 6"
    using assms(1) by (auto simp: in_bounds_iff kBoardSize_def split: if_splits)
  have "sint (word_of_int (sint (piece_x p) + 1) :: 8 word) = sint (piece_x p) + 1"
    using b by (intro sint_word_of_int_8) simp_all
  then have sx: "sint (piece_x p + 1) = sint (piece_x p) + 1"
    by simp
  have "sint (word_of_int (sint (piece_y p) + 1) :: 8 word) = sint (piece_y p) + 1"
    using b by (intro sint_word_of_int_8) simp_all
  then have sy: "sint (piece_y p + 1) = sint (piece_y p) + 1"
    by simp
  show "in_bounds (Move p 1)"
    using assms by (auto simp: in_bounds_iff Move_def sx sy cell_after_def in_buf_def)
  show "set (cells (Move p 1)) \<subseteq> insert (cell_after p) (set (cells p))"
    by (auto simp: cells_iff Move_def sx sy cell_after_def split: if_splits)
qed

lemma Move_0: "Move p 0 = p"
  by (simp add: Move_def)

text \<open>Every delta of the range of a piece in bounds: where the moved piece lies.\<close>

lemma Move_in_range:
  assumes "in_bounds p" and "MovementRange p buf = Inr (lo, hi)" and "lo \<le> d" and "d \<le> hi"
    and "d \<noteq> 0"
  shows "(d = - 1 \<and> free_cell buf (cell_before p)) \<or> (d = 1 \<and> free_cell buf (cell_after p))"
  using assms(2-) unfolding MovementRange_in_bounds [OF assms(1)]
  by (auto split: if_splits)

lemma Canonicalize_Inr: "pieces S \<noteq> [] \<Longrightarrow> \<exists>S'. Canonicalize srt S = Inr S'"
  by (auto simp: Canonicalize_def split: list.splits)

lemma Canonicalize_mset: "Canonicalize srt S = Inr S' \<Longrightarrow> mset (pieces S') = mset (pieces S)"
  by (auto simp: Canonicalize_def split: list.splits)

lemma Neighbors_deltas_mem:
  "Neighbors_deltas srt S i ds = Inr ns \<Longrightarrow>
     N \<in> set ns \<longleftrightarrow> (\<exists>d \<in> set ds. d \<noteq> 0 \<and> Canonicalize srt (moved S i d) = Inr N)"
proof (induction ds arbitrary: ns)
  case Nil
  then show ?case by auto
next
  case (Cons d ds)
  show ?case
  proof (cases "d = 0")
    case True
    then show ?thesis using Cons by auto
  next
    case False
    then obtain n ns' where
      "Canonicalize srt (moved S i d) = Inr n" "Neighbors_deltas srt S i ds = Inr ns'" "ns = n # ns'"
      using Cons.prems by (auto split: sum.splits)
    then show ?thesis
      using Cons.IH [of ns'] False by auto
  qed
qed

lemma Neighbors_deltas_Inr: "pieces S \<noteq> [] \<Longrightarrow> \<exists>ns. Neighbors_deltas srt S i ds = Inr ns"
proof (induction ds)
  case Nil
  then show ?case by simp
next
  case (Cons d ds)
  moreover have "\<exists>n. Canonicalize srt (moved S i d) = Inr n"
    using Cons.prems by (intro Canonicalize_Inr) (simp add: moved_def)
  ultimately show ?case by auto
qed

lemma Neighbors_loop_mem:
  "Neighbors_loop srt S b i ps = Inr ns \<Longrightarrow>
     N \<in> set ns \<longleftrightarrow>
       (\<exists>j lo hi d. j < length ps \<and> MovementRange (ps ! j) b = Inr (lo, hi) \<and> lo \<le> d \<and> d \<le> hi \<and>
          d \<noteq> 0 \<and> Canonicalize srt (moved S (i + j) d) = Inr N)"
proof (induction ps arbitrary: i ns)
  case Nil
  then show ?case by auto
next
  case (Cons p ps)
  from Cons.prems obtain lo hi r r' where
    r: "MovementRange p b = Inr (lo, hi)" "Neighbors_deltas srt S i [lo..hi] = Inr r"
       "Neighbors_loop srt S b (Suc i) ps = Inr r'" "ns = r @ r'"
    by (auto split: sum.splits prod.splits)
  have 1: "N \<in> set r \<longleftrightarrow> (\<exists>d. lo \<le> d \<and> d \<le> hi \<and> d \<noteq> 0 \<and> Canonicalize srt (moved S i d) = Inr N)"
    using Neighbors_deltas_mem [OF r(2)] by auto
  have 2: "N \<in> set r' \<longleftrightarrow>
       (\<exists>j lo hi d. j < length ps \<and> MovementRange (ps ! j) b = Inr (lo, hi) \<and> lo \<le> d \<and> d \<le> hi \<and>
          d \<noteq> 0 \<and> Canonicalize srt (moved S (Suc i + j) d) = Inr N)"
    by (rule Cons.IH [OF r(3)])
  show ?case (is "?L \<longleftrightarrow> ?R")
  proof
    assume ?L
    then consider "N \<in> set r" | "N \<in> set r'" using r(4) by auto
    then show ?R
    proof cases
      case 1
      then obtain d where "lo \<le> d" "d \<le> hi" "d \<noteq> 0" "Canonicalize srt (moved S i d) = Inr N"
        using \<open>N \<in> set r \<longleftrightarrow> _\<close> by blast
      then have "0 < length (p # ps) \<and> MovementRange ((p # ps) ! 0) b = Inr (lo, hi) \<and> lo \<le> d \<and>
          d \<le> hi \<and> d \<noteq> 0 \<and> Canonicalize srt (moved S (i + 0) d) = Inr N"
        using r(1) by simp
      then show ?thesis by blast
    next
      case 2
      then obtain j lo' hi' d where "j < length ps" "MovementRange (ps ! j) b = Inr (lo', hi')"
        "lo' \<le> d" "d \<le> hi'" "d \<noteq> 0" "Canonicalize srt (moved S (Suc i + j) d) = Inr N"
        using \<open>N \<in> set r' \<longleftrightarrow> _\<close> by blast
      then have "Suc j < length (p # ps) \<and> MovementRange ((p # ps) ! Suc j) b = Inr (lo', hi') \<and>
          lo' \<le> d \<and> d \<le> hi' \<and> d \<noteq> 0 \<and> Canonicalize srt (moved S (i + Suc j) d) = Inr N"
        by simp
      then show ?thesis by blast
    qed
  next
    assume ?R
    then obtain j lo' hi' d where j: "j < length (p # ps)"
      "MovementRange ((p # ps) ! j) b = Inr (lo', hi')"
      "lo' \<le> d" "d \<le> hi'" "d \<noteq> 0" "Canonicalize srt (moved S (i + j) d) = Inr N"
      by blast
    show ?L
    proof (cases j)
      case 0
      then have "N \<in> set r" using j r(1) 1 by auto
      then show ?thesis using r(4) by simp
    next
      case (Suc j')
      then have "N \<in> set r'" using j 2 by auto
      then show ?thesis using r(4) by simp
    qed
  qed
qed

lemma Neighbors_loop_Inr:
  assumes "pieces S \<noteq> []" and "\<forall>p \<in> set ps. \<exists>r. MovementRange p b = Inr r"
  shows "\<exists>ns. Neighbors_loop srt S b i ps = Inr ns"
  using assms(2)
proof (induction ps arbitrary: i)
  case Nil
  then show ?case by simp
next
  case (Cons p ps)
  obtain lo hi where "MovementRange p b = Inr (lo, hi)"
    using Cons.prems by fastforce
  moreover obtain r where "Neighbors_deltas srt S i [lo..hi] = Inr r"
    using Neighbors_deltas_Inr [OF assms(1)] by blast
  moreover obtain r' where "Neighbors_loop srt S b (Suc i) ps = Inr r'"
    using Cons by auto
  ultimately show ?case by simp
qed

lemma Neighbors_mem:
  assumes "Neighbors srt S = Inr ns"
  shows "N \<in> set ns \<longleftrightarrow>
       (\<exists>b j lo hi d. State_Draw S = Inr b \<and> j < length (pieces S) \<and>
          MovementRange (pieces S ! j) b = Inr (lo, hi) \<and> lo \<le> d \<and> d \<le> hi \<and>
          d \<noteq> 0 \<and> Canonicalize srt (moved S j d) = Inr N)"
proof -
  from assms obtain b where b: "State_Draw S = Inr b" "Neighbors_loop srt S b 0 (pieces S) = Inr ns"
    by (auto simp: Neighbors_def split: sum.splits)
  show ?thesis
    using Neighbors_loop_mem [OF b(2), of N] b(1) by auto
qed

lemma distinct_concat_update:
  assumes "distinct (concat (map f xs))" and "j < length xs" and "distinct (f y)"
    and "set (f y) \<subseteq> set (f (xs ! j)) \<union> C" and "C \<inter> set (concat (map f xs)) = {}"
  shows "distinct (concat (map f (xs[j := y])))"
  using assms
proof (induction xs arbitrary: j)
  case Nil
  then show ?case by simp
next
  case (Cons x xs)
  show ?case
  proof (cases j)
    case 0
    then show ?thesis using Cons.prems by auto
  next
    case (Suc j')
    have IH: "distinct (concat (map f (xs[j' := y])))"
      using Cons.prems Suc by (intro Cons.IH) auto
    have "set (xs[j' := y]) \<subseteq> insert y (set xs)"
      by (rule set_update_subset_insert)
    then have 1: "set (concat (map f (xs[j' := y]))) \<subseteq> set (f y) \<union> set (concat (map f xs))"
      by auto
    have "xs ! j' \<in> set xs"
      using Cons.prems Suc by simp
    then have "set (f (xs ! j')) \<subseteq> set (concat (map f xs))"
      by auto
    then have 2: "set (f y) \<subseteq> set (concat (map f xs)) \<union> C"
      using Cons.prems(4) Suc by auto
    have 3: "set (f x) \<inter> set (concat (map f xs)) = {}" "C \<inter> set (f x) = {}"
      using Cons.prems(1,5) by auto
    have "set (f x) \<inter> set (concat (map f (xs[j' := y]))) = {}"
      using 1 2 3 by blast
    then show ?thesis
      using Cons.prems Suc IH by auto
  qed
qed

lemma mset_concat_map_cong:
  assumes "mset xs = mset ys"
  shows "mset (concat (map f xs)) = mset (concat (map f ys))"
proof -
  have "mset (concat (map f zs)) = sum_mset (image_mset (\<lambda>z. mset (f z)) (mset zs))" for zs
    by (induction zs) auto
  then show ?thesis using assms by simp
qed

lemma valid_state_mset:
  assumes "mset (pieces S') = mset (pieces S)" and "valid_state S"
  shows "valid_state S'"
proof -
  have "set (pieces S') = set (pieces S)"
    using assms(1) by (rule mset_eq_setD)
  moreover have "distinct (concat (map cells (pieces S'))) = distinct (concat (map cells (pieces S)))"
    using mset_concat_map_cong [OF assms(1)] by (rule mset_eq_imp_distinct_iff)
  ultimately show ?thesis
    using assms(2) by (simp add: valid_state_def no_overlap_def list_all_iff)
qed

lemma moved_valid:
  assumes "valid_state S" and "State_Draw S = Inr b" and "j < length (pieces S)"
    and "MovementRange (pieces S ! j) b = Inr (lo, hi)" and "lo \<le> d" and "d \<le> hi" and "d \<noteq> 0"
  shows "valid_state (moved S j d)"
proof -
  let ?p = "pieces S ! j"
  let ?all = "concat (map cells (pieces S))"
  have occ: "occupied b = set ?all"
    using State_Draw_valid [OF assms(1)] assms(2) by auto
  have inb: "list_all in_bounds (pieces S)" and dis: "distinct ?all"
    using assms(1) by (simp_all add: valid_state_def no_overlap_def)
  have p: "in_bounds ?p"
    using inb assms(3) by (simp add: list_all_length)
  define c where "c = (if d = - 1 then cell_before ?p else cell_after ?p)"
  have free: "free_cell b c" and d: "d = - 1 \<or> d = 1"
    using Move_in_range [OF p assms(4-7)] by (auto simp: c_def)
  have c_new: "{c} \<inter> set ?all = {}"
    using free occ by (auto simp: free_cell_def occupied_def)
  have moved: "in_bounds (Move ?p d)" "set (cells (Move ?p d)) \<subseteq> set (cells ?p) \<union> {c}"
    using d free Move_back [OF p] Move_forward [OF p]
    by (auto simp: c_def free_cell_def)
  have "distinct (concat (map cells ((pieces S)[j := Move ?p d])))"
    using dis assms(3) distinct_cells moved(2) c_new by (rule distinct_concat_update)
  moreover have "list_all in_bounds ((pieces S)[j := Move ?p d])"
    using inb moved(1) set_update_subset_insert [of "pieces S" j "Move ?p d"]
    by (auto simp: list_all_iff)
  ultimately show ?thesis
    by (simp add: valid_state_def no_overlap_def moved_def)
qed

lemma Neighbors_valid:
  assumes "valid_state S"
  shows "\<exists>ns. Neighbors srt S = Inr ns \<and> (\<forall>N \<in> set ns. valid_state N)"
proof -
  obtain b where b: "State_Draw S = Inr b"
    using State_Draw_valid [OF assms] by blast
  have ns: "\<exists>ns. Neighbors srt S = Inr ns"
  proof (cases "pieces S = []")
    case True
    then show ?thesis using b by (simp add: Neighbors_def)
  next
    case False
    have "\<forall>p \<in> set (pieces S). \<exists>r. MovementRange p b = Inr r"
      using assms by (auto simp: valid_state_def list_all_iff MovementRange_in_bounds)
    from Neighbors_loop_Inr [OF False this] show ?thesis
      using b by (simp add: Neighbors_def)
  qed
  then obtain ns where ns: "Neighbors srt S = Inr ns" by blast
  have "valid_state N" if "N \<in> set ns" for N
  proof -
    from that Neighbors_mem [OF ns, of N] b obtain j lo hi d where
      "j < length (pieces S)" "MovementRange (pieces S ! j) b = Inr (lo, hi)"
      "lo \<le> d" "d \<le> hi" "d \<noteq> 0" and N: "Canonicalize srt (moved S j d) = Inr N"
      by auto
    then have "valid_state (moved S j d)"
      using moved_valid [OF assms b] by blast
    then show ?thesis
      using Canonicalize_mset [OF N] by (rule valid_state_mset [rotated])
  qed
  then show ?thesis using ns by blast
qed

section \<open>The movement range and the specification's scan\<close>

lemma free_run_before:
  assumes "in_bounds p"
  shows "max (- 1) (- free_run buf (outward_before p)) =
           (if free_cell buf (cell_before p) then - 1 else 0)"
proof (cases "outward_before p")
  case Nil
  then have "axis = 0" if "axis = (if piece_orient p = kHoriz then sint (piece_x p) else sint (piece_y p))"
    for axis
    using assms that by (auto simp: outward_before_def in_bounds_iff split: if_splits)
  then have "\<not> free_cell buf (cell_before p)"
    by (auto simp: free_cell_def cell_before_def in_buf_def)
  then show ?thesis using Nil by (simp add: free_run_def)
next
  case (Cons c cs)
  then have "c = cell_before p"
    by (auto simp: outward_before_def cell_before_def upt_eq_Cons_conv Cons_eq_map_conv
        split: if_splits)
  then show ?thesis
    using Cons by (auto simp: free_run_def free_cell_def split: prod.splits)
qed

lemma free_run_after:
  assumes "in_bounds p"
  shows "min 1 (free_run buf (outward_after p)) =
           (if free_cell buf (cell_after p) then 1 else 0)"
proof (cases "outward_after p")
  case Nil
  then have "kBoardSize \<le> axis"
    if "axis = (if piece_orient p = kHoriz then sint (piece_x p) + sint (piece_size p)
                else sint (piece_y p) + sint (piece_size p))"
    for axis
    using assms that by (auto simp: outward_after_def in_bounds_iff split: if_splits)
  then have "\<not> free_cell buf (cell_after p)"
    by (auto simp: free_cell_def cell_after_def in_buf_def)
  then show ?thesis using Nil by (simp add: free_run_def)
next
  case (Cons c cs)
  then have "c = cell_after p"
    by (auto simp: outward_after_def cell_after_def upt_eq_Cons_conv Cons_eq_map_conv
        split: if_splits)
  then show ?thesis
    using Cons by (auto simp: free_run_def free_cell_def split: prod.splits)
qed

lemma legal_move_unit:
  assumes "in_bounds p"
  shows "legal_move p buf 0"
    and "free_cell buf (cell_before p) \<Longrightarrow> legal_move p buf (- 1)"
    and "free_cell buf (cell_after p) \<Longrightarrow> legal_move p buf 1"
proof -
  have own: "(cx, cy) \<in> set (cells p) \<Longrightarrow> in_buf cy cx" for cx cy
    using assms by (auto simp: in_bounds_def list_all_iff)
  show "legal_move p buf 0"
    using own by (auto simp: legal_move_def Move_0 list_all_iff)
  show "legal_move p buf (- 1)" if f: "free_cell buf (cell_before p)"
  proof -
    have "set (cells (Move p (- 1))) \<subseteq> insert (cell_before p) (set (cells p))"
      using f by (intro Move_back(2) [OF assms]) (simp add: free_cell_def)
    then have *: "c = cell_before p \<or> c \<in> set (cells p)" if "c \<in> set (cells (Move p (- 1)))" for c
      using that by blast
    have "in_buf cy cx \<and> ((cx, cy) \<in> set (cells p) \<or> buf cy cx = kEmpty)"
      if "(cx, cy) \<in> set (cells (Move p (- 1)))" for cx cy
      using * [OF that] own [of cx cy] f unfolding free_cell_def by (metis fst_conv snd_conv)
    then show ?thesis
      by (auto simp: legal_move_def list_all_iff)
  qed
  show "legal_move p buf 1" if f: "free_cell buf (cell_after p)"
  proof -
    have "set (cells (Move p 1)) \<subseteq> insert (cell_after p) (set (cells p))"
      using f by (intro Move_forward(2) [OF assms]) (simp add: free_cell_def)
    then have *: "c = cell_after p \<or> c \<in> set (cells p)" if "c \<in> set (cells (Move p 1))" for c
      using that by blast
    have "in_buf cy cx \<and> ((cx, cy) \<in> set (cells p) \<or> buf cy cx = kEmpty)"
      if "(cx, cy) \<in> set (cells (Move p 1))" for cx cy
      using * [OF that] own [of cx cy] f unfolding free_cell_def by (metis fst_conv snd_conv)
    then show ?thesis
      by (auto simp: legal_move_def list_all_iff)
  qed
qed

lemma S1_Draw: "State_Draw S1 = Inr B1"
  by (simp add: State_Draw_def S1_def P1_def mk_Piece_def Piece_Draw_def marker_def B1_def
      numeral_2_eq_2 in_buf_def kBoardSize_def empty_buf_def kEmpty_def buf_set_def)

text \<open>
  Claim C1, as the code has it. For a piece in bounds and any buffer, \<open>MovementRange\<close>
  returns the bounds of the specification's scan (the empty cells counted outwards on
  either side up to the grid's edge or the first cell that is not empty) cut off at one
  cell: \<open>max (- 1)\<close> of the lower and \<open>min 1\<close> of the upper bound. Every delta between
  the bounds it returns is a legal move on that buffer.
\<close>

theorem MovementRange_clipped:
  assumes "in_bounds p"
  shows "MovementRange p buf =
           Inr (max (- 1) (fst (spec_MovementRange p buf)), min 1 (snd (spec_MovementRange p buf))) \<and>
         (\<forall>delta. max (- 1) (fst (spec_MovementRange p buf)) \<le> delta \<and>
                  delta \<le> min 1 (snd (spec_MovementRange p buf)) \<longrightarrow> legal_move p buf delta)"
proof -
  have r: "max (- 1) (fst (spec_MovementRange p buf)) = (if free_cell buf (cell_before p) then - 1 else 0)"
          "min 1 (snd (spec_MovementRange p buf)) = (if free_cell buf (cell_after p) then 1 else 0)"
    using free_run_before [OF assms] free_run_after [OF assms]
    by (simp_all add: spec_MovementRange_def)
  have "legal_move p buf delta"
    if "(if free_cell buf (cell_before p) then - 1 else 0) \<le> delta"
       "delta \<le> (if free_cell buf (cell_after p) then 1 else 0)" for delta
  proof -
    have "delta = 0 \<or> (delta = - 1 \<and> free_cell buf (cell_before p)) \<or>
          (delta = 1 \<and> free_cell buf (cell_after p))"
      using that by (auto split: if_splits)
    then show ?thesis
      using legal_move_unit [OF assms] by blast
  qed
  then show ?thesis
    unfolding r using MovementRange_in_bounds [OF assms] by simp
qed

theorem MovementRange_clipped_witness:
  "in_bounds P1 \<and> spec_MovementRange P1 B1 = (0, 4) \<and> MovementRange P1 B1 = Inr (0, 1) \<and>
   legal_move P1 B1 1"
proof -
  have h1: "in_bounds P1"
    by code_simp
  have h2: "spec_MovementRange P1 B1 = (0, 4)"
    by code_simp
  show ?thesis
    using MovementRange_clipped [OF h1, of B1] h1 h2 by simp
qed

text \<open>
  Claim C1 as the specification states it fails: for the piece in the corner of the board
  that holds nothing else, four empty cells lie to its right and the scan counts them all,
  but \<open>MovementRange\<close> returns 1 (its loops stop at \<^verbatim>\<open>max_delta < 1\<close> and
  \<^verbatim>\<open>min_delta > -1\<close>).
\<close>

theorem MovementRange_counterexample:
  "State_Draw S1 = Inr B1 \<and> MovementRange P1 B1 = Inr (0, 1) \<and> spec_MovementRange P1 B1 = (0, 4)"
  apply (simp add: S1_Draw)
  apply (simp add: MovementRange_def P1_def mk_Piece_def scan_both_def scan_down_0 scan_up_0 buf_get_def in_buf_def kBoardSize_def B1_def buf_set_def empty_buf_def kEmpty_def spec_MovementRange_def outward_before_def outward_after_def free_run_def upt_conv_Cons)
  done

section \<open>Neighbours\<close>

text \<open>
  Claim C3. If every piece of \<open>S\<close> is in bounds (it covers at least one cell, and all its
  cells lie in the grid) and no cell is covered twice, then \<open>Neighbors srt S\<close> returns,
  whatever the sorter, and every state it returns has no cell covered twice, has its pieces
  in bounds and renders without reaching the clash branch of \<^verbatim>\<open>Piece::Draw\<close> (or any
  other failure).
\<close>

theorem Neighbors_no_overlap:
  assumes "list_all in_bounds (pieces S)" and "no_overlap S"
  shows "\<exists>ns. Neighbors srt S = Inr ns \<and>
           (\<forall>N \<in> set ns. no_overlap N \<and> list_all in_bounds (pieces N) \<and>
                          (\<exists>b. State_Draw N = Inr b))"
proof -
  have "valid_state S"
    using assms by (simp add: valid_state_def)
  then obtain ns where ns: "Neighbors srt S = Inr ns" "\<forall>N \<in> set ns. valid_state N"
    using Neighbors_valid by blast
  have "no_overlap N \<and> list_all in_bounds (pieces N) \<and> (\<exists>b. State_Draw N = Inr b)"
    if "N \<in> set ns" for N
  proof -
    have "valid_state N" using ns(2) that by blast
    then show ?thesis
      using State_Draw_valid [of N] by (auto simp: valid_state_def)
  qed
  then show ?thesis using ns(1) by blast
qed

theorem Neighbors_no_overlap_witness:
  "list_all in_bounds (pieces S_main) \<and> no_overlap S_main \<and>
   (\<exists>ns. Neighbors insertion_sorter S_main = Inr ns \<and>
      (\<forall>N \<in> set ns. no_overlap N \<and> list_all in_bounds (pieces N) \<and>
                     (\<exists>b. State_Draw N = Inr b)))"
proof -
  have h1: "list_all in_bounds (pieces S_main)"
    by code_simp
  have h2: "no_overlap S_main"
    by code_simp
  show ?thesis
    using Neighbors_no_overlap [OF h1 h2] h1 h2 by blast
qed

text \<open>
  Claim C10. \<open>MovementRange\<close> returns bounds with \<open>-1 \<le> min_delta \<le> 0 \<le> max_delta \<le> 1\<close>
  whenever it returns, which it does for every piece in bounds (otherwise it may read
  outside the buffer). So every state that \<open>Neighbors srt S\<close> returns is \<open>S\<close> with one
  piece moved by \<open>-1\<close> or \<open>1\<close> (and then put in canonical order by the sorter), and when
  the pieces of \<open>S\<close> are in bounds so are the pieces of every neighbour.
\<close>

theorem MovementRange_one_cell:
  "(case MovementRange p buf of
      Inl e \<Rightarrow> e = OutOfRange
    | Inr (min_delta, max_delta) \<Rightarrow>
        - 1 \<le> min_delta \<and> min_delta \<le> 0 \<and> 0 \<le> max_delta \<and> max_delta \<le> 1) \<and>
   (in_bounds p \<longrightarrow> (\<exists>r. MovementRange p buf = Inr r)) \<and>
   (Neighbors srt S = Inr ns \<and> N \<in> set ns \<longrightarrow>
      (\<exists>i < length (pieces S). \<exists>delta \<in> {- 1, 1}. Canonicalize srt (moved S i delta) = Inr N)) \<and>
   (Neighbors srt S = Inr ns \<and> N \<in> set ns \<and> list_all in_bounds (pieces S) \<longrightarrow>
      list_all in_bounds (pieces N))"
proof (intro conjI impI)
  show "case MovementRange p buf of
      Inl e \<Rightarrow> e = OutOfRange
    | Inr (min_delta, max_delta) \<Rightarrow>
        - 1 \<le> min_delta \<and> min_delta \<le> 0 \<and> 0 \<le> max_delta \<and> max_delta \<le> 1"
    using MovementRange_cases [of p buf] by auto
next
  assume "in_bounds p"
  then show "\<exists>r. MovementRange p buf = Inr r"
    by (simp add: MovementRange_in_bounds)
next
  assume "Neighbors srt S = Inr ns \<and> N \<in> set ns"
  then obtain b j lo hi d where *: "j < length (pieces S)"
    "MovementRange (pieces S ! j) b = Inr (lo, hi)" "lo \<le> d" "d \<le> hi" "d \<noteq> 0"
    "Canonicalize srt (moved S j d) = Inr N"
    using Neighbors_mem [of srt S ns N] by blast
  have "- 1 \<le> lo" "hi \<le> 1"
    using MovementRange_cases [of "pieces S ! j" b] *(2) by auto
  then have "d \<in> {- 1, 1}"
    using *(3-5) by auto
  then show "\<exists>i < length (pieces S). \<exists>delta \<in> {- 1, 1}. Canonicalize srt (moved S i delta) = Inr N"
    using *(1,6) by blast
next
  assume a: "Neighbors srt S = Inr ns \<and> N \<in> set ns \<and> list_all in_bounds (pieces S)"
  then obtain b j lo hi d where *: "j < length (pieces S)"
    "MovementRange (pieces S ! j) b = Inr (lo, hi)" "lo \<le> d" "d \<le> hi" "d \<noteq> 0"
    "Canonicalize srt (moved S j d) = Inr N"
    using Neighbors_mem [of srt S ns N] by blast
  let ?p = "pieces S ! j"
  have p: "in_bounds ?p"
    using a *(1) by (simp add: list_all_length)
  have "in_bounds (Move ?p d)"
    using Move_in_range [OF p *(2-5)] Move_back(1) [OF p] Move_forward(1) [OF p]
    by (auto simp: free_cell_def)
  then have "list_all in_bounds (pieces (moved S j d))"
    using a set_update_subset_insert [of "pieces S" j "Move ?p d"]
    by (auto simp: moved_def list_all_iff)
  moreover have "set (pieces N) = set (pieces (moved S j d))"
    using Canonicalize_mset [OF *(6)] by (rule mset_eq_setD)
  ultimately show "list_all in_bounds (pieces N)"
    by (simp add: list_all_iff)
qed

theorem MovementRange_one_cell_witness:
  "in_bounds P1 \<and> Neighbors insertion_sorter S1 = Inr [N1] \<and> N1 \<in> set [N1] \<and>
   list_all in_bounds (pieces S1) \<and>
   MovementRange P1 B1 = Inr (0, 1) \<and>
   (\<exists>r. MovementRange P1 B1 = Inr r) \<and>
   (\<exists>i < length (pieces S1). \<exists>delta \<in> {- 1, 1}.
      Canonicalize insertion_sorter (moved S1 i delta) = Inr N1) \<and>
   list_all in_bounds (pieces N1)"
proof -
  have h1: "in_bounds P1"
    by code_simp
  have h2: "Neighbors insertion_sorter S1 = Inr [N1]"
    by code_simp
  have h3: "list_all in_bounds (pieces S1)"
    by code_simp
  have h4: "MovementRange P1 B1 = Inr (0, 1)"
    by code_simp
  show ?thesis
    using MovementRange_one_cell [of P1 B1 insertion_sorter S1 "[N1]" N1] h1 h2 h3 h4 by simp
qed

section \<open>Canonical form\<close>

lemma std_sort_sorted: "sorted_wrt (\<lambda>a b. \<not> Piece_less b a) (std_sort srt ps)"
  using std_sort_sorts [of srt] by (simp add: sorts_def)

text \<open>
  Pieces at pairwise different positions have one sorted order only: every sorter returns
  what insertion sort returns on them.
\<close>

lemma sorted_unique:
  assumes "mset zs = mset ps" and "sorted_wrt (\<lambda>a b. \<not> Piece_less b a) zs"
    and "distinct (map piece_key ps)"
  shows "zs = insertion_sort ps"
proof -
  have set: "set zs = set ps"
    using assms(1) by (rule mset_eq_setD)
  have inj: "inj_on piece_key (set ps)"
    using assms(3) by (simp add: distinct_map)
  have "mset (map piece_key zs) = mset (map piece_key ps)"
    using assms(1) by simp
  then have dz: "distinct (map piece_key zs)"
    using assms(3) mset_eq_imp_distinct_iff by blast
  have "map piece_key zs = map piece_key (insertion_sort ps)"
  proof (rule sorted_distinct_set_unique)
    show "sorted (map piece_key zs)"
      using assms(2) by (simp add: sorted_wrt_Piece_less)
    show "distinct (map piece_key zs)"
      by (rule dz)
    show "sorted (map piece_key (insertion_sort ps))"
      by (simp add: insertion_sort_sort_key)
    show "distinct (map piece_key (insertion_sort ps))"
      using assms(3) by (simp add: insertion_sort_sort_key distinct_map)
    show "set (map piece_key zs) = set (map piece_key (insertion_sort ps))"
      using set by (simp add: insertion_sort_sort_key)
  qed
  moreover have "inj_on piece_key (set zs \<union> set (insertion_sort ps))"
    using inj set by (simp add: insertion_sort_sort_key)
  ultimately show ?thesis
    by (rule map_inj_on)
qed

lemma std_sort_unique:
  assumes "distinct (map piece_key ps)"
  shows "std_sort srt ps = insertion_sort ps"
  using mset_std_sort std_sort_sorted assms by (rule sorted_unique)

lemma std_sort_permutation:
  assumes "mset xs = mset ys" and "distinct (map piece_key xs)"
  shows "std_sort srt xs = std_sort srt' ys"
proof -
  have "mset (std_sort srt' ys) = mset xs"
    using assms(1) by simp
  then have "std_sort srt' ys = insertion_sort xs"
    using std_sort_sorted assms(2) by (rule sorted_unique)
  then show ?thesis
    using assms(2) by (simp add: std_sort_unique)
qed

lemma std_sort_idem:
  assumes "distinct (map piece_key ps)"
  shows "std_sort srt (std_sort srt ps) = std_sort srt ps"
proof -
  have "mset (map piece_key (std_sort srt ps)) = mset (map piece_key ps)"
    by simp
  then have "distinct (map piece_key (std_sort srt ps))"
    using assms mset_eq_imp_distinct_iff by blast
  then show ?thesis
    by (intro std_sort_permutation) simp_all
qed


text \<open>
  Claim C4, as the code has it. For a state whose pieces behind the goal piece lie at
  pairwise different positions \<open>(x, y)\<close>, canonicalizing twice gives what canonicalizing
  once gives, whatever sorter does the sorting: the canonical state again when the state
  has a piece, and the same failure when it has none (the sentinel state, on which
  \<^verbatim>\<open>begin() + 1\<close> is undefined). (Lemma \<open>valid_state_distinct_keys\<close>: the pieces of a
  state in bounds without overlap do lie at different positions.)
\<close>

theorem Canonicalize_idempotent:
  assumes "distinct (map piece_key (tl (pieces S)))"
  shows "(case Canonicalize srt S of Inl e \<Rightarrow> Inl e | Inr S' \<Rightarrow> Canonicalize srt S') =
         Canonicalize srt S"
  using assms by (auto simp: Canonicalize_def std_sort_idem split: list.splits)

theorem Canonicalize_idempotent_witness:
  "distinct (map piece_key (tl (pieces \<lparr>pieces = [G2, C2, D2, B2]\<rparr>))) \<and>
   Canonicalize reversing_sorter \<lparr>pieces = [G2, C2, D2, B2]\<rparr> =
     Inr \<lparr>pieces = [G2, B2, D2, C2]\<rparr> \<and>
   Canonicalize reversing_sorter \<lparr>pieces = [G2, B2, D2, C2]\<rparr> =
     Inr \<lparr>pieces = [G2, B2, D2, C2]\<rparr>"
proof -
  have h: "distinct (map piece_key (tl (pieces \<lparr>pieces = [G2, C2, D2, B2]\<rparr>)))"
    by code_simp
  have "Canonicalize reversing_sorter \<lparr>pieces = [G2, C2, D2, B2]\<rparr> =
          Inr \<lparr>pieces = [G2, B2, D2, C2]\<rparr>"
    by code_simp
  then show ?thesis
    using Canonicalize_idempotent [OF h, of reversing_sorter] h by simp
qed

text \<open>
  Claim C4 as the specification states it, for every state, fails where two of the pieces
  behind the goal piece share their position: \<^verbatim>\<open>operator<\<close> compares positions only,
  neither of \<open>T_H\<close> and \<open>T_V\<close> is less than the other, and the sort of libstdc++ exchanges
  the two whenever it sorts these seventeen pieces. (On ranges of at most 16 elements it
  is an insertion sort and leaves such pieces as they come.)
\<close>

theorem Canonicalize_idempotent_counterexample:
  "libstdcxx_sort (T_H # T_V # tied_rest) = Some (T_V # T_H # tied_rest) \<and>
   libstdcxx_sort (T_V # T_H # tied_rest) = Some (T_H # T_V # tied_rest) \<and>
   Canonicalize libstdcxx_sorter S_tied = Inr S_tied' \<and>
   Canonicalize libstdcxx_sorter S_tied' = Inr S_tied \<and>
   S_tied \<noteq> S_tied'"
  by code_simp

text \<open>
  Two pieces at one position: the sort of libstdc++ leaves them as they come, as insertion
  sort does.
\<close>

lemma libstdcxx_sort_two:
  "libstdcxx_sort [A2, B2] = Some [A2, B2] \<and> libstdcxx_sort [B2, A2] = Some [B2, A2] \<and>
   std_sort libstdcxx_sorter [A2, B2] = std_sort insertion_sorter [A2, B2] \<and>
   std_sort libstdcxx_sorter [B2, A2] = std_sort insertion_sorter [B2, A2]"
  by code_simp

text \<open>
  Claim C5, as the code has it. Two states with the same goal piece whose other pieces are
  permutations of each other and lie at pairwise different positions \<open>(x, y)\<close> have
  canonical forms, whatever the sorter, that are equal under \<^verbatim>\<open>operator==\<close> and have the
  same hash. (Lemma
  \<open>valid_state_distinct_keys\<close>: the pieces of a state in bounds without overlap do lie
  at different positions.)
\<close>

theorem Canonicalize_permutation:
  assumes "pieces S = goal # xs" and "pieces T = goal # ys" and "mset xs = mset ys"
    and "distinct (map piece_key xs)"
  shows "\<exists>C D. Canonicalize srt S = Inr C \<and> Canonicalize srt T = Inr D \<and> State_eq C D \<and>
               State_hash C = State_hash D"
proof -
  have "std_sort srt xs = std_sort srt ys"
    using assms(3,4) by (rule std_sort_permutation)
  then show ?thesis
    using assms(1,2) by (simp add: Canonicalize_def State_eq_def State_hash_def)
qed

theorem Canonicalize_permutation_witness:
  "pieces \<lparr>pieces = [G2, C2, D2, B2]\<rparr> = G2 # [C2, D2, B2] \<and>
   pieces \<lparr>pieces = [G2, D2, B2, C2]\<rparr> = G2 # [D2, B2, C2] \<and>
   mset [C2, D2, B2] = mset [D2, B2, C2] \<and> distinct (map piece_key [C2, D2, B2]) \<and>
   (\<exists>C D. Canonicalize insertion_sorter \<lparr>pieces = [G2, C2, D2, B2]\<rparr> = Inr C \<and>
          Canonicalize insertion_sorter \<lparr>pieces = [G2, D2, B2, C2]\<rparr> = Inr D \<and> State_eq C D \<and>
          State_hash C = State_hash D)"
proof -
  have h1: "mset [C2, D2, B2] = mset [D2, B2, C2]"
    by simp
  have h2: "distinct (map piece_key [C2, D2, B2])"
    by code_simp
  show ?thesis
    using Canonicalize_permutation [of "\<lparr>pieces = [G2, C2, D2, B2]\<rparr>" G2 "[C2, D2, B2]"
        "\<lparr>pieces = [G2, D2, B2, C2]\<rparr>" "[D2, B2, C2]", OF _ _ h1 h2] h1 h2
    by simp
qed

text \<open>
  Claim C5 as the specification states it fails where two of the other pieces share their
  position: \<^verbatim>\<open>operator<\<close> compares positions only, neither of \<open>A2\<close> and \<open>B2\<close> is less
  than the other, and insertion sort, which the sort of libstdc++ is on a range of at most
  16 elements, leaves them as they come.
\<close>

theorem Canonicalize_permutation_counterexample:
  "pieces \<lparr>pieces = [G2, A2, B2]\<rparr> = G2 # [A2, B2] \<and>
   pieces \<lparr>pieces = [G2, B2, A2]\<rparr> = G2 # [B2, A2] \<and>
   mset [A2, B2] = mset [B2, A2] \<and>
   Canonicalize insertion_sorter \<lparr>pieces = [G2, A2, B2]\<rparr> = Inr \<lparr>pieces = [G2, A2, B2]\<rparr> \<and>
   Canonicalize insertion_sorter \<lparr>pieces = [G2, B2, A2]\<rparr> = Inr \<lparr>pieces = [G2, B2, A2]\<rparr> \<and>
   \<not> State_eq \<lparr>pieces = [G2, A2, B2]\<rparr> \<lparr>pieces = [G2, B2, A2]\<rparr> \<and>
   State_hash \<lparr>pieces = [G2, A2, B2]\<rparr> \<noteq> State_hash \<lparr>pieces = [G2, B2, A2]\<rparr>"
proof -
  have "Canonicalize insertion_sorter \<lparr>pieces = [G2, A2, B2]\<rparr> = Inr \<lparr>pieces = [G2, A2, B2]\<rparr>"
    by code_simp
  moreover have "Canonicalize insertion_sorter \<lparr>pieces = [G2, B2, A2]\<rparr> = Inr \<lparr>pieces = [G2, B2, A2]\<rparr>"
    by code_simp
  moreover have "\<not> State_eq \<lparr>pieces = [G2, A2, B2]\<rparr> \<lparr>pieces = [G2, B2, A2]\<rparr>"
    by code_simp
  moreover have "State_hash \<lparr>pieces = [G2, A2, B2]\<rparr> \<noteq> State_hash \<lparr>pieces = [G2, B2, A2]\<rparr>"
    by code_simp
  ultimately show ?thesis
    by (simp add: add_mset_commute)
qed

section \<open>The invariant of the search\<close>

lemma step_iff: "step srt s t \<longleftrightarrow> (\<exists>ns. Neighbors srt s = Inr ns \<and> t \<in> set ns)"
  by (auto simp: step_def split: sum.splits)

lemma step_length: "step srt s t \<Longrightarrow> length (pieces t) = length (pieces s)"
  by (auto simp: step_iff dest: Neighbors_length)

lemma reach_length: "reach srt s0 k t \<Longrightarrow> length (pieces t) = length (pieces s0)"
  by (induction k arbitrary: t) (auto dest: step_length)

lemma moves_ok_snoc:
  "moves_ok srt (xs @ [x]) \<longleftrightarrow> moves_ok srt xs \<and> (xs \<noteq> [] \<longrightarrow> step srt (last xs) x)"
  by (induction xs rule: moves_ok.induct) auto

lemma moves_ok_reach:
  "xs \<noteq> [] \<Longrightarrow> moves_ok srt xs \<Longrightarrow> reach srt (hd xs) (length xs - 1) (last xs)"
proof (induction xs rule: rev_induct)
  case Nil
  then show ?case by simp
next
  case (snoc x xs)
  show ?case
  proof (cases "xs = []")
    case True
    then show ?thesis by simp
  next
    case False
    then have "reach srt (hd xs) (length xs - 1) (last xs)" "step srt (last xs) x"
      using snoc by (simp_all add: moves_ok_snoc)
    then have "reach srt (hd xs) (Suc (length xs - 1)) x"
      by auto
    then show ?thesis
      using False by simp
  qed
qed

lemma sorted_le_last: "sorted xs \<Longrightarrow> x \<in> set xs \<Longrightarrow> x \<le> (last xs :: int)"
  by (induction xs) auto

lemma bfs_invI:
  assumes "prev s0 = Some \<lparr>pieces = []\<rparr>" and "lv s0 = 0" and "pieces s0 \<noteq> []"
    and "\<And>s p. prev s = Some p \<Longrightarrow> s \<noteq> s0 \<Longrightarrow> prev p \<noteq> None \<and> step srt p s \<and> lv s = Suc (lv p)"
    and "\<And>s. prev s \<noteq> None \<Longrightarrow> reach srt s0 (lv s) s \<and> (\<forall>k. reach srt s0 k s \<longrightarrow> lv s \<le> k)"
    and "\<And>e. e \<in> set q \<Longrightarrow> prev (state e) \<noteq> None \<and> moves e = int (lv (state e))"
    and "sorted (map moves q)" and "q \<noteq> [] \<Longrightarrow> moves (last q) \<le> moves (hd q) + 1"
    and "\<And>s. prev s \<noteq> None \<Longrightarrow> s \<notin> state ` set q \<Longrightarrow>
           \<not> state_at_dest dx dy s \<and> (\<forall>t. step srt s t \<longrightarrow> prev t \<noteq> None)"
    and "\<And>k t. q \<noteq> [] \<Longrightarrow> int k \<le> moves (hd q) \<Longrightarrow> reach srt s0 k t \<Longrightarrow> prev t \<noteq> None"
  shows "bfs_inv srt s0 dx dy lv q prev"
  unfolding bfs_inv_def
  apply (intro conjI)
  subgoal by (rule assms(1))
  subgoal by (rule assms(2))
  subgoal by (rule assms(3))
  subgoal using assms(4) by blast
  subgoal using assms(5) by blast
  subgoal using assms(6) by blast
  subgoal by (rule assms(7))
  subgoal using assms(8) by blast
  subgoal using assms(9) by blast
  subgoal using assms(10) by blast
  done

lemma bfs_invD:
  assumes "bfs_inv srt s0 dx dy lv q prev"
  shows "prev s0 = Some \<lparr>pieces = []\<rparr>" and "lv s0 = 0" and "pieces s0 \<noteq> []"
    and "\<And>s p. prev s = Some p \<Longrightarrow> s \<noteq> s0 \<Longrightarrow> prev p \<noteq> None \<and> step srt p s \<and> lv s = Suc (lv p)"
    and "\<And>s. prev s \<noteq> None \<Longrightarrow> reach srt s0 (lv s) s \<and> (\<forall>k. reach srt s0 k s \<longrightarrow> lv s \<le> k)"
    and "\<And>e. e \<in> set q \<Longrightarrow> prev (state e) \<noteq> None \<and> moves e = int (lv (state e))"
    and "sorted (map moves q)" and "q \<noteq> [] \<Longrightarrow> moves (last q) \<le> moves (hd q) + 1"
    and "\<And>s. prev s \<noteq> None \<Longrightarrow> s \<notin> state ` set q \<Longrightarrow>
           \<not> state_at_dest dx dy s \<and> (\<forall>t. step srt s t \<longrightarrow> prev t \<noteq> None)"
    and "\<And>k t. q \<noteq> [] \<Longrightarrow> int k \<le> moves (hd q) \<Longrightarrow> reach srt s0 k t \<Longrightarrow> prev t \<noteq> None"
  using assms unfolding bfs_inv_def by blast+

lemma bfs_inv_init:
  assumes "pieces s0 \<noteq> []"
  shows "bfs_inv srt s0 dx dy (\<lambda>s. 0) [\<lparr>state = s0, moves = 0\<rparr>] [s0 \<mapsto> \<lparr>pieces = []\<rparr>]"
proof (rule bfs_invI)
  show "reach srt s0 ((\<lambda>s. 0) s) s \<and> (\<forall>k. reach srt s0 k s \<longrightarrow> (\<lambda>s. 0) s \<le> k)"
    if "[s0 \<mapsto> \<lparr>pieces = []\<rparr>] s \<noteq> None" for s
    using that by (simp split: if_splits)
  show "[s0 \<mapsto> \<lparr>pieces = []\<rparr>] t \<noteq> None"
    if "int k \<le> moves (hd [\<lparr>state = s0, moves = 0\<rparr>])" "reach srt s0 k t" for k t
    using that by simp
qed (use assms in \<open>auto split: if_splits\<close>)

lemma bfs_inv_discover:
  assumes inv: "bfs_inv srt s0 dx dy lv (e # q) prev"
    and st: "step srt (state e) t" and new: "prev t = None"
  shows "bfs_inv srt s0 dx dy (lv(t := Suc (lv (state e))))
           (e # q @ [\<lparr>state = t, moves = moves e + 1\<rparr>]) (prev(t \<mapsto> state e))"
proof -
  let ?lv = "lv(t := Suc (lv (state e)))"
  let ?n = "\<lparr>state = t, moves = moves e + 1\<rparr>"
  let ?prev = "prev(t \<mapsto> state e)"
  note I1 = bfs_invD(1-3) [OF inv] and I2 = bfs_invD(4) [OF inv] and I3 = bfs_invD(5) [OF inv]
    and I4 = bfs_invD(6) [OF inv] and I6 = bfs_invD(9) [OF inv]
  have I5: "sorted (map moves (e # q))" "moves (last (e # q)) \<le> moves e + 1"
    using bfs_invD(7,8) [OF inv] by simp_all
  have I7: "\<And>k t. int k \<le> moves e \<Longrightarrow> reach srt s0 k t \<Longrightarrow> prev t \<noteq> None"
    using bfs_invD(10) [OF inv] by simp
  have e: "prev (state e) \<noteq> None" "moves e = int (lv (state e))"
    using I4 [of e] by simp_all
  have ne: "x \<noteq> t" if "prev x \<noteq> None" for x
    using that new by auto
  have J1: "?prev s0 = Some \<lparr>pieces = []\<rparr> \<and> ?lv s0 = 0 \<and> pieces s0 \<noteq> []"
    using I1 ne [of s0] by simp
  have J2: "?prev p \<noteq> None \<and> step srt p s \<and> ?lv s = Suc (?lv p)"
    if "?prev s = Some p" "s \<noteq> s0" for s p
  proof (cases "s = t")
    case True
    then have "p = state e" using that by simp
    then show ?thesis
      using True st e(1) ne [of "state e"] by simp
  next
    case False
    then have "prev s = Some p" using that by simp
    from I2 [OF this that(2)] show ?thesis
      using False ne [of p] by simp
  qed
  have J3: "reach srt s0 (?lv s) s \<and> (\<forall>k. reach srt s0 k s \<longrightarrow> ?lv s \<le> k)" if "?prev s \<noteq> None" for s
  proof (cases "s = t")
    case True
    have "reach srt s0 (Suc (lv (state e))) t"
      using I3 [OF e(1)] st by auto
    moreover have "Suc (lv (state e)) \<le> k" if "reach srt s0 k t" for k
    proof (rule ccontr)
      assume "\<not> Suc (lv (state e)) \<le> k"
      then have "int k \<le> moves e" using e(2) by simp
      from I7 [OF this that] show False using new by simp
    qed
    ultimately show ?thesis using True by simp
  next
    case False
    then show ?thesis using that I3 [of s] by simp
  qed
  have J4: "?prev (state e') \<noteq> None \<and> moves e' = int (?lv (state e'))"
    if "e' \<in> set (e # q @ [?n])" for e'
  proof (cases "e' = ?n")
    case True
    then show ?thesis using e(2) by simp
  next
    case False
    then have "e' \<in> set (e # q)" using that by auto
    from I4 [OF this] show ?thesis
      using ne [of "state e'"] by simp
  qed
  have "\<forall>m \<in> set (map moves (e # q)). m \<le> moves e + 1"
  proof
    fix m assume m: "m \<in> set (map moves (e # q))"
    have "m \<le> last (map moves (e # q))"
      using I5(1) m by (rule sorted_le_last)
    moreover have "last (map moves (e # q)) = moves (last (e # q))"
      by (rule last_map) simp
    ultimately show "m \<le> moves e + 1"
      using I5(2) by linarith
  qed
  then have J5: "sorted (map moves (e # q @ [?n]))"
    using I5(1) by (auto simp: sorted_append)
  have J5': "moves (last (e # q @ [?n])) \<le> moves (hd (e # q @ [?n])) + 1"
    by simp
  have J6: "\<not> state_at_dest dx dy s \<and> (\<forall>u. step srt s u \<longrightarrow> ?prev u \<noteq> None)"
    if "?prev s \<noteq> None" "s \<notin> state ` set (e # q @ [?n])" for s
  proof -
    have "s \<noteq> t" using that(2) by force
    then have "prev s \<noteq> None" "s \<notin> state ` set (e # q)"
      using that by auto
    from I6 [OF this] show ?thesis by auto
  qed
  have J7: "?prev u \<noteq> None" if "int k \<le> moves (hd (e # q @ [?n]))" "reach srt s0 k u" for k u
    using I7 [of k u] that by auto
  show ?thesis
  proof (rule bfs_invI)
    show "?prev s0 = Some \<lparr>pieces = []\<rparr>" "?lv s0 = 0" "pieces s0 \<noteq> []"
      using J1 by blast+
  qed (use J2 J3 J4 J5 J5' J6 J7 in blast)+
qed

lemma bfs_inv_enqueue:
  assumes "bfs_inv srt s0 dx dy lv (e # q) prev" and "\<forall>t \<in> set ns. step srt (state e) t"
  shows "\<exists>lv'. bfs_inv srt s0 dx dy lv' (e # fst (enqueue_new e ns (q, prev)))
                 (snd (enqueue_new e ns (q, prev)))"
  using assms
proof (induction ns arbitrary: lv q prev)
  case Nil
  then show ?case by auto
next
  case (Cons t ns)
  show ?case
  proof (cases "prev t = None")
    case True
    have "bfs_inv srt s0 dx dy (lv(t := Suc (lv (state e))))
           (e # q @ [\<lparr>state = t, moves = moves e + 1\<rparr>]) (prev(t \<mapsto> state e))"
      using Cons.prems True by (intro bfs_inv_discover) auto
    moreover have "\<forall>t \<in> set ns. step srt (state e) t"
      using Cons.prems(2) by simp
    ultimately have "\<exists>lv'. bfs_inv srt s0 dx dy lv'
        (e # fst (enqueue_new e ns (q @ [\<lparr>state = t, moves = moves e + 1\<rparr>], prev(t \<mapsto> state e))))
        (snd (enqueue_new e ns (q @ [\<lparr>state = t, moves = moves e + 1\<rparr>], prev(t \<mapsto> state e))))"
      by (rule Cons.IH)
    moreover have "enqueue_new e (t # ns) (q, prev) =
        enqueue_new e ns (q @ [\<lparr>state = t, moves = moves e + 1\<rparr>], prev(t \<mapsto> state e))"
      using True by simp
    ultimately show ?thesis
      by (simp only:)
  next
    case False
    have "\<forall>t \<in> set ns. step srt (state e) t"
      using Cons.prems(2) by simp
    with Cons.prems(1) have "\<exists>lv'. bfs_inv srt s0 dx dy lv'
        (e # fst (enqueue_new e ns (q, prev))) (snd (enqueue_new e ns (q, prev)))"
      by (rule Cons.IH)
    moreover have "enqueue_new e (t # ns) (q, prev) = enqueue_new e ns (q, prev)"
      using False by auto
    ultimately show ?thesis
      by (simp only:)
  qed
qed

lemma sorted_hd_le: "sorted xs \<Longrightarrow> x \<in> set xs \<Longrightarrow> (hd xs :: int) \<le> x"
  by (cases xs) auto

lemma bfs_inv_pop:
  assumes inv: "bfs_inv srt s0 dx dy lv (e # q) prev"
    and not_dest: "\<not> state_at_dest dx dy (state e)"
    and closed: "\<And>t. step srt (state e) t \<Longrightarrow> prev t \<noteq> None"
  shows "bfs_inv srt s0 dx dy lv q prev"
proof -
  note I1 = bfs_invD(1-3) [OF inv] and I2 = bfs_invD(4) [OF inv] and I3 = bfs_invD(5) [OF inv]
    and I4 = bfs_invD(6) [OF inv] and I6 = bfs_invD(9) [OF inv]
  have I5: "sorted (map moves (e # q))" "moves (last (e # q)) \<le> moves e + 1"
    using bfs_invD(7,8) [OF inv] by simp_all
  have I7: "\<And>k t. int k \<le> moves e \<Longrightarrow> reach srt s0 k t \<Longrightarrow> prev t \<noteq> None"
    using bfs_invD(10) [OF inv] by simp
  have e: "prev (state e) \<noteq> None" "moves e = int (lv (state e))"
    using I4 [of e] by simp_all
  have J6: "\<not> state_at_dest dx dy s \<and> (\<forall>t. step srt s t \<longrightarrow> prev t \<noteq> None)"
    if "prev s \<noteq> None" "s \<notin> state ` set q" for s
  proof (cases "s = state e")
    case True
    then show ?thesis using not_dest closed by blast
  next
    case False
    then have "s \<notin> state ` set (e # q)" using that(2) by auto
    from I6 [OF that(1) this] show ?thesis .
  qed
  have hd_le: "moves (hd q) \<le> moves e'" if "e' \<in> set q" for e'
  proof -
    have "hd (map moves q) \<le> moves e'"
      using I5(1) that by (intro sorted_hd_le) auto
    then show ?thesis
      using that by (cases q) auto
  qed
  have J5: "moves (last q) \<le> moves (hd q) + 1" if "q \<noteq> []"
  proof -
    have "moves e \<le> moves (hd q)"
      using I5(1) that by (cases q) auto
    moreover have "last (e # q) = last q"
      using that by simp
    ultimately show ?thesis using I5(2) by simp
  qed
  have J7: "prev t \<noteq> None" if a: "q \<noteq> []" "int k \<le> moves (hd q)" "reach srt s0 k t" for k t
  proof (cases "int k \<le> moves e")
    case True
    then show ?thesis using I7 a(3) by blast
  next
    case False
    have "moves (hd q) \<le> moves (last q)"
      using hd_le [of "last q"] a(1) by simp
    then have "moves (hd q) \<le> moves e + 1"
      using J5 [OF a(1)] I5(2) a(1) by simp
    then have k: "int k = moves e + 1" "moves (hd q) = moves e + 1"
      using False a(2) by simp_all
    then obtain k' where k': "k = Suc k'" "int k' = moves e"
      using e(2) by (cases k) auto
    then obtain u where u: "reach srt s0 k' u" "step srt u t"
      using a(3) by auto
    have pu: "prev u \<noteq> None"
      using I7 [of k' u] k'(2) u(1) by simp
    have "lv u \<le> k'"
      using I3 [OF pu] u(1) by blast
    have "u \<notin> state ` set q"
    proof
      assume "u \<in> state ` set q"
      then obtain e' where e': "e' \<in> set q" "state e' = u" by auto
      then have "moves e' = int (lv u)"
        using I4 [of e'] by simp
      moreover have "moves (hd q) \<le> moves e'"
        using hd_le e'(1) by blast
      ultimately show False
        using \<open>lv u \<le> k'\<close> k(2) k'(2) by simp
    qed
    from J6 [OF pu this] u(2) show ?thesis by blast
  qed
  show ?thesis
  proof (rule bfs_invI)
    show "prev s0 = Some \<lparr>pieces = []\<rparr>" "lv s0 = 0" "pieces s0 \<noteq> []"
      using I1 by blast+
    show "sorted (map moves q)"
      using I5(1) by simp
    show "\<And>e'. e' \<in> set q \<Longrightarrow> prev (state e') \<noteq> None \<and> moves e' = int (lv (state e'))"
      using I4 by simp
  qed (use I2 I3 J5 J6 J7 in blast)+
qed

lemma enqueue_new_closed:
  assumes "Neighbors srt (state e) = Inr ns" and "step srt (state e) t"
  shows "snd (enqueue_new e ns (q, prev)) t \<noteq> None"
proof -
  have "t \<in> set ns"
    using assms by (simp add: step_iff)
  then have "t \<in> dom (snd (enqueue_new e ns (q, prev)))"
    by (simp add: enqueue_new_dom)
  then show ?thesis by blast
qed

lemma Solve_loop_found:
  assumes "bfs_inv srt s0 dx dy lv q prev"
    and "Solve_loop srt dx dy q prev = Inr (Some e, q', prev')"
  shows "\<exists>lv'. bfs_inv srt s0 dx dy lv' (e # q') prev' \<and> state_at_dest dx dy (state e)"
  using assms
proof (induction srt dx dy q prev arbitrary: lv rule: Solve_loop.induct)
  case (1 srt dx dy prev)
  then show ?case by (simp add: Solve_loop.simps)
next
  case (2 srt dx dy elem q prev)
  from "2.prems"(2) obtain front_piece others where
    fp: "pieces (state elem) = front_piece # others"
    by (cases "pieces (state elem)") (auto simp: Solve_loop.simps)
  show ?case
  proof (cases "at_dest dx dy front_piece")
    case True
    then have "e = elem" "q' = q" "prev' = prev"
      using "2.prems"(2) fp by (simp_all add: Solve_loop.simps)
    moreover have "state_at_dest dx dy (state elem)"
      using True fp by (simp add: state_at_dest_def)
    ultimately show ?thesis
      using "2.prems"(1) by blast
  next
    case False
    then obtain ns where ns: "Neighbors srt (state elem) = Inr ns"
      using "2.prems"(2) fp by (cases "Neighbors srt (state elem)") (auto simp: Solve_loop.simps)
    let ?r = "enqueue_new elem ns (q, prev)"
    have rec: "Solve_loop srt dx dy (fst ?r) (snd ?r) = Inr (Some e, q', prev')"
      using "2.prems"(2) fp False ns by (simp add: Solve_loop.simps)
    have "\<forall>t \<in> set ns. step srt (state elem) t"
      using ns by (simp add: step_iff)
    from bfs_inv_enqueue [OF "2.prems"(1) this] obtain lv' where
      "bfs_inv srt s0 dx dy lv' (elem # fst ?r) (snd ?r)"
      by blast
    moreover have "\<not> state_at_dest dx dy (state elem)"
      using False fp by (simp add: state_at_dest_def)
    ultimately have "bfs_inv srt s0 dx dy lv' (fst ?r) (snd ?r)"
      using enqueue_new_closed [OF ns] by (rule bfs_inv_pop)
    from "2.IH" [OF fp False ns this rec] show ?thesis .
  qed
qed

lemma TracePathTo_loop_inv:
  assumes inv: "bfs_inv srt s0 dx dy lv q prev" and "prev s \<noteq> None"
  shows "\<exists>path. TracePathTo_loop prev s acc = Some (Inr (path @ rev acc)) \<and> path \<noteq> [] \<and>
           hd path = s0 \<and> last path = s \<and> moves_ok srt path \<and> length path = Suc (lv s)"
  using assms(2)
proof (induction "lv s" arbitrary: s acc)
  case 0
  have "s = s0"
  proof (rule ccontr)
    assume "s \<noteq> s0"
    moreover obtain p where "prev s = Some p" using "0.prems" by auto
    ultimately have "lv s = Suc (lv p)"
      using bfs_invD(4) [OF inv] by blast
    then show False using "0.hyps" by simp
  qed
  then have "TracePathTo_loop prev s acc = Some (Inr ([s0] @ rev acc))"
    using bfs_invD(1,3) [OF inv]
    by (simp add: TracePathTo_loop.simps [of prev s0] TracePathTo_loop.simps [of prev "\<lparr>pieces = []\<rparr>"])
  then show ?case
    using \<open>s = s0\<close> bfs_invD(2) [OF inv] by auto
next
  case (Suc n)
  have "s \<noteq> s0"
    using Suc.hyps(2) bfs_invD(2) [OF inv] by auto
  obtain p where p: "prev s = Some p" using Suc.prems by auto
  from bfs_invD(4) [OF inv p \<open>s \<noteq> s0\<close>]
  have pp: "prev p \<noteq> None" "step srt p s" "lv s = Suc (lv p)" by auto
  have "length (pieces s) = length (pieces s0)"
    using bfs_invD(5) [OF inv Suc.prems] reach_length by blast
  then have ne: "pieces s \<noteq> []"
    using bfs_invD(3) [OF inv] by auto
  have "n = lv p" using pp(3) Suc.hyps(2) by simp
  from Suc.hyps(1) [OF this pp(1), of "acc @ [s]"] obtain path where
    path: "TracePathTo_loop prev p (acc @ [s]) = Some (Inr (path @ rev (acc @ [s])))"
      "path \<noteq> []" "hd path = s0" "last path = p" "moves_ok srt path" "length path = Suc (lv p)"
    by blast
  have "TracePathTo_loop prev s acc = Some (Inr ((path @ [s]) @ rev acc))"
    using path(1) ne p by (simp add: TracePathTo_loop.simps [of prev s])
  moreover have "moves_ok srt (path @ [s])"
    using path(2,4,5) pp(2) by (simp add: moves_ok_snoc)
  ultimately show ?case
    using path(2,3,6) pp(3) by (intro exI [of _ "path @ [s]"]) simp
qed

lemma bfs_inv_shortest:
  assumes inv: "bfs_inv srt s0 dx dy lv (e # q) prev"
    and "reach srt s0 k t" and "state_at_dest dx dy t"
  shows "lv (state e) \<le> k"
proof (rule ccontr)
  assume "\<not> lv (state e) \<le> k"
  have e: "moves e = int (lv (state e))"
    using bfs_invD(6) [OF inv, of e] by simp
  then have k: "int k \<le> moves (hd (e # q))"
    using \<open>\<not> lv (state e) \<le> k\<close> by simp
  have pt: "prev t \<noteq> None"
    using bfs_invD(10) [OF inv _ k assms(2)] by simp
  then have "lv t \<le> k"
    using bfs_invD(5) [OF inv pt] assms(2) by blast
  have "t \<notin> state ` set (e # q)"
  proof
    assume "t \<in> state ` set (e # q)"
    then obtain e' where e': "e' \<in> set (e # q)" "state e' = t" by auto
    then have "moves e' = int (lv t)"
      using bfs_invD(6) [OF inv e'(1)] by simp
    moreover have "hd (map moves (e # q)) \<le> moves e'"
      using bfs_invD(7) [OF inv] e'(1) by (intro sorted_hd_le) auto
    ultimately show False
      using \<open>lv t \<le> k\<close> \<open>\<not> lv (state e) \<le> k\<close> e by simp
  qed
  from bfs_invD(9) [OF inv pt this] assms(3) show False by blast
qed

section \<open>Solve\<close>

lemma Solve_fresh:
  "Solve srt (mk_Game start dx dy) =
     (case Solve_loop srt dx dy [\<lparr>state = start, moves = 0\<rparr>] [start \<mapsto> \<lparr>pieces = []\<rparr>] of
        Inl e \<Rightarrow> Some (Inl e)
      | Inr (None, q, prev) \<Rightarrow> Some (Inr [])
      | Inr (Some elem, q, prev) \<Rightarrow> TracePathTo prev (state elem))"
  by (simp add: Solve_def mk_Game_def emplace_def)

lemma Solve_loop_no_piece:
  "pieces start = [] \<Longrightarrow> Solve_loop srt dx dy (\<lparr>state = start, moves = m\<rparr> # q) prev = Inl EmptyVector"
  by (simp add: Solve_loop.simps)

lemma Solve_found:
  assumes "Solve_loop srt dx dy [\<lparr>state = start, moves = 0\<rparr>] [start \<mapsto> \<lparr>pieces = []\<rparr>] =
             Inr (Some e, q, prev)"
  shows "\<exists>lv path. bfs_inv srt start dx dy lv (e # q) prev \<and> state_at_dest dx dy (state e) \<and>
           TracePathTo prev (state e) = Some (Inr path) \<and> path \<noteq> [] \<and> hd path = start \<and>
           last path = state e \<and> moves_ok srt path \<and> int (length path) = moves e + 1"
proof -
  have "pieces start \<noteq> []"
    using assms Solve_loop_no_piece [of start srt dx dy 0 "[]"] by auto
  then have "bfs_inv srt start dx dy (\<lambda>s. 0) [\<lparr>state = start, moves = 0\<rparr>] [start \<mapsto> \<lparr>pieces = []\<rparr>]"
    by (rule bfs_inv_init)
  from Solve_loop_found [OF this assms] obtain lv where
    inv: "bfs_inv srt start dx dy lv (e # q) prev" and dest: "state_at_dest dx dy (state e)"
    by blast
  have e: "prev (state e) \<noteq> None" "moves e = int (lv (state e))"
    using bfs_invD(6) [OF inv, of e] by simp_all
  from TracePathTo_loop_inv [OF inv e(1), of "[]"] obtain path where
    "TracePathTo_loop prev (state e) [] = Some (Inr (path @ rev []))" "path \<noteq> []"
    "hd path = start" "last path = state e" "moves_ok srt path" "length path = Suc (lv (state e))"
    by blast
  then have "TracePathTo prev (state e) = Some (Inr path) \<and> path \<noteq> [] \<and> hd path = start \<and>
           last path = state e \<and> moves_ok srt path \<and> int (length path) = moves e + 1"
    using e(2) by (simp add: TracePathTo_def)
  then show ?thesis
    using inv dest by blast
qed

lemma Solve_succeeds:
  assumes "Solve srt (mk_Game start dx dy) = Some (Inr path)" and "path \<noteq> []"
  shows "\<exists>e q prev. Solve_loop srt dx dy [\<lparr>state = start, moves = 0\<rparr>] [start \<mapsto> \<lparr>pieces = []\<rparr>] =
                    Inr (Some e, q, prev) \<and>
                  TracePathTo prev (state e) = Some (Inr path)"
  using assms unfolding Solve_fresh
  by (auto split: sum.splits option.splits)


lemma reach_moves_ok:
  "reach srt s0 k t \<Longrightarrow> \<exists>xs. xs \<noteq> [] \<and> hd xs = s0 \<and> last xs = t \<and> moves_ok srt xs \<and> length xs = Suc k"
proof (induction k arbitrary: t)
  case 0
  then show ?case by (intro exI [of _ "[s0]"]) simp
next
  case (Suc k)
  then obtain s where s: "reach srt s0 k s" "step srt s t" by auto
  from Suc.IH [OF s(1)] obtain xs where
    xs: "xs \<noteq> []" "hd xs = s0" "last xs = s" "moves_ok srt xs" "length xs = Suc k"
    by blast
  then have "xs @ [t] \<noteq> [] \<and> hd (xs @ [t]) = s0 \<and> last (xs @ [t]) = t \<and> moves_ok srt (xs @ [t]) \<and>
             length (xs @ [t]) = Suc (Suc k)"
    using s(2) by (simp add: moves_ok_snoc)
  then show ?case by blast
qed

lemma reach_valid: "valid_state s0 \<Longrightarrow> reach srt s0 k t \<Longrightarrow> valid_state t"
proof (induction k arbitrary: t)
  case 0
  then show ?case by simp
next
  case (Suc k)
  then obtain s where s: "reach srt s0 k s" "step srt s t" by auto
  then have "valid_state s" using Suc by blast
  then show ?case
    using Neighbors_valid [of s srt] s(2) by (auto simp: step_iff)
qed

lemma reach_closed_set:
  assumes "s0 \<in> A" and "\<And>s t. s \<in> A \<Longrightarrow> step srt s t \<Longrightarrow> t \<in> A"
  shows "reach srt s0 k t \<Longrightarrow> t \<in> A"
  using assms by (induction k arbitrary: t) auto

lemma Solve_loop_exhaust:
  assumes "\<forall>s. P s \<longrightarrow> pieces s \<noteq> [] \<and> \<not> state_at_dest dx dy s \<and>
                 (\<exists>ns. Neighbors srt s = Inr ns \<and> (\<forall>t \<in> set ns. P t))"
    and "\<forall>e \<in> set q. P (state e)"
  shows "\<exists>prev'. Solve_loop srt dx dy q prev = Inr (None, [], prev')"
  using assms
proof (induction srt dx dy q prev rule: Solve_loop.induct)
  case (1 srt dx dy prev)
  then show ?case by (simp add: Solve_loop.simps)
next
  case (2 srt dx dy elem q prev)
  have "P (state elem)"
    using "2.prems"(2) by simp
  with "2.prems"(1) obtain ns where
    el: "pieces (state elem) \<noteq> []" "\<not> state_at_dest dx dy (state elem)"
      "Neighbors srt (state elem) = Inr ns" "\<forall>t \<in> set ns. P t"
    by blast
  then obtain front_piece others where
    fp: "pieces (state elem) = front_piece # others" "\<not> at_dest dx dy front_piece"
    by (cases "pieces (state elem)") (auto simp: state_at_dest_def)
  let ?r = "enqueue_new elem ns (q, prev)"
  have "state ` set (fst ?r) \<subseteq> state ` set q \<union> set ns"
    by (rule enqueue_new_states)
  then have "\<forall>e \<in> set (fst ?r). P (state e)"
    using "2.prems"(2) el(4) by auto
  with "2.prems"(1) have "\<exists>prev'. Solve_loop srt dx dy (fst ?r) (snd ?r) = Inr (None, [], prev')"
    by (rule "2.IH" [OF fp el(3)])
  then show ?case
    using fp el(3) by (simp add: Solve_loop.simps)
qed

lemma row_states_closed: "s \<in> set row_states \<Longrightarrow> step insertion_sorter s t \<Longrightarrow> t \<in> set row_states"
proof -
  have n: "Neighbors insertion_sorter \<lparr>pieces = [mk_Piece 0 0 2 kHoriz]\<rparr> = Inr [\<lparr>pieces = [mk_Piece 1 0 2 kHoriz]\<rparr>]"
    "Neighbors insertion_sorter \<lparr>pieces = [mk_Piece 1 0 2 kHoriz]\<rparr> =
       Inr [\<lparr>pieces = [mk_Piece 0 0 2 kHoriz]\<rparr>, \<lparr>pieces = [mk_Piece 2 0 2 kHoriz]\<rparr>]"
    "Neighbors insertion_sorter \<lparr>pieces = [mk_Piece 2 0 2 kHoriz]\<rparr> =
       Inr [\<lparr>pieces = [mk_Piece 1 0 2 kHoriz]\<rparr>, \<lparr>pieces = [mk_Piece 3 0 2 kHoriz]\<rparr>]"
    "Neighbors insertion_sorter \<lparr>pieces = [mk_Piece 3 0 2 kHoriz]\<rparr> =
       Inr [\<lparr>pieces = [mk_Piece 2 0 2 kHoriz]\<rparr>, \<lparr>pieces = [mk_Piece 4 0 2 kHoriz]\<rparr>]"
    "Neighbors insertion_sorter \<lparr>pieces = [mk_Piece 4 0 2 kHoriz]\<rparr> = Inr [\<lparr>pieces = [mk_Piece 3 0 2 kHoriz]\<rparr>]"
    by code_simp+
  assume "s \<in> set row_states" "step insertion_sorter s t"
  then show ?thesis
    using n by (auto simp: row_states_def step_iff)
qed

lemma row_states_reach:
  assumes "xs \<noteq> []" and "hd xs = S1" and "moves_ok insertion_sorter xs"
  shows "last xs \<in> set row_states"
proof -
  have "S1 \<in> set row_states"
    by (simp add: row_states_def S1_def P1_def)
  moreover have "reach insertion_sorter S1 (length xs - 1) (last xs)"
    using moves_ok_reach [OF assms(1,3)] assms(2) by simp
  ultimately show ?thesis
    using row_states_closed reach_closed_set [of S1 "set row_states"] by blast
qed

section \<open>The search does not depend on the sorter\<close>







text \<open>
  Where pieces of the start state share a position, what \<open>Solve\<close> returns may depend on
  the sorter: two pieces without a cell at the same position come out of the two sorters in
  different orders.
\<close>

lemma Solve_sorter_tied:
  "Solve insertion_sorter (mk_Game S_deg 1 2) =
     Some (Inr [S_deg, \<lparr>pieces = [mk_Piece 1 2 2 kHoriz, Z_H, Z_V]\<rparr>]) \<and>
   Solve reversing_sorter (mk_Game S_deg 1 2) =
     Some (Inr [S_deg, \<lparr>pieces = [mk_Piece 1 2 2 kHoriz, Z_V, Z_H]\<rparr>])"
  by code_simp

section \<open>Slides and the moves of the search\<close>

lemma first_cell: "in_bounds p \<Longrightarrow> (sint (piece_x p), sint (piece_y p)) \<in> set (cells p)"
  by (auto simp: cells_iff in_bounds_iff)

lemma cell_after_not_own: "cell_after p \<notin> set (cells p)"
  by (cases "cell_after p") (auto simp: cells_iff cell_after_def split: if_splits)

lemma cell_before_not_own: "cell_before p \<notin> set (cells p)"
  by (cases "cell_before p") (auto simp: cells_iff cell_before_def split: if_splits)

lemma legal_move_forward_iff:
  assumes "in_bounds p"
  shows "legal_move p buf 1 \<longleftrightarrow> free_cell buf (cell_after p)"
proof
  assume "free_cell buf (cell_after p)"
  then show "legal_move p buf 1"
    by (rule legal_move_unit(3) [OF assms])
next
  assume l: "legal_move p buf 1"
  have b: "1 \<le> sint (piece_size p)" "0 \<le> sint (piece_x p)" "0 \<le> sint (piece_y p)"
    "sint (piece_x p) < 6" "sint (piece_y p) < 6"
    using assms by (auto simp: in_bounds_iff kBoardSize_def split: if_splits)
  have "sint (word_of_int (sint (piece_x p) + 1) :: 8 word) = sint (piece_x p) + 1"
    using b by (intro sint_word_of_int_8) simp_all
  then have sx: "sint (piece_x p + 1) = sint (piece_x p) + 1"
    by simp
  have "sint (word_of_int (sint (piece_y p) + 1) :: 8 word) = sint (piece_y p) + 1"
    using b by (intro sint_word_of_int_8) simp_all
  then have sy: "sint (piece_y p + 1) = sint (piece_y p) + 1"
    by simp
  have "cell_after p \<in> set (cells (Move p 1))"
    using b by (cases "cell_after p") (auto simp: cells_iff Move_def cell_after_def sx sy)
  then have "in_buf (snd (cell_after p)) (fst (cell_after p)) \<and>
      (cell_after p \<in> set (cells p) \<or> buf (snd (cell_after p)) (fst (cell_after p)) = kEmpty)"
    using l by (cases "cell_after p") (auto simp: legal_move_def list_all_iff)
  then show "free_cell buf (cell_after p)"
    using cell_after_not_own by (simp add: free_cell_def)
qed

lemma legal_move_back_iff:
  assumes "in_bounds p"
  shows "legal_move p buf (- 1) \<longleftrightarrow> free_cell buf (cell_before p)"
proof
  assume "free_cell buf (cell_before p)"
  then show "legal_move p buf (- 1)"
    by (rule legal_move_unit(2) [OF assms])
next
  assume l: "legal_move p buf (- 1)"
  have b: "1 \<le> sint (piece_size p)" "0 \<le> sint (piece_x p)" "0 \<le> sint (piece_y p)"
    "sint (piece_x p) < 6" "sint (piece_y p) < 6"
    using assms by (auto simp: in_bounds_iff kBoardSize_def split: if_splits)
  have "sint (word_of_int (sint (piece_x p) - 1) :: 8 word) = sint (piece_x p) - 1"
    using b by (intro sint_word_of_int_8) simp_all
  then have sx: "sint (piece_x p - 1) = sint (piece_x p) - 1"
    by simp
  have "sint (word_of_int (sint (piece_y p) - 1) :: 8 word) = sint (piece_y p) - 1"
    using b by (intro sint_word_of_int_8) simp_all
  then have sy: "sint (piece_y p - 1) = sint (piece_y p) - 1"
    by simp
  have "cell_before p \<in> set (cells (Move p (- 1)))"
    using b by (cases "cell_before p") (auto simp: cells_iff Move_def cell_before_def sx sy)
  then have "in_buf (snd (cell_before p)) (fst (cell_before p)) \<and>
      (cell_before p \<in> set (cells p) \<or> buf (snd (cell_before p)) (fst (cell_before p)) = kEmpty)"
    using l by (cases "cell_before p") (auto simp: legal_move_def list_all_iff)
  then show "free_cell buf (cell_before p)"
    using cell_before_not_own by (simp add: free_cell_def)
qed

lemma free_cell_occupied:
  "free_cell b c \<longleftrightarrow> in_buf (snd c) (fst c) \<and> c \<notin> occupied b"
  by (cases c) (auto simp: free_cell_def occupied_def)

lemma same_up_to_orderD:
  assumes "same_up_to_order S C"
  obtains g xs ys where "pieces S = g # xs" "pieces C = g # ys" "mset xs = mset ys"
  using assms by (auto simp: same_up_to_order_def split: list.splits)

lemma same_up_to_order_dest:
  "same_up_to_order S C \<Longrightarrow> state_at_dest dx dy S = state_at_dest dx dy C"
  by (auto simp: same_up_to_order_def state_at_dest_def split: list.splits)

lemma slide_simulation:
  assumes valid: "valid_state S" and same: "same_up_to_order S C" and slide: "one_cell_slide S T"
  shows "\<exists>C'. step srt C C' \<and> same_up_to_order T C' \<and> valid_state T"
proof -
  from same obtain g xs ys where
    S: "pieces S = g # xs" and C: "pieces C = g # ys" and perm: "mset xs = mset ys"
    by (rule same_up_to_orderD)
  have msetC: "mset (pieces C) = mset (pieces S)"
    using S C perm by simp
  then have validC: "valid_state C"
    using valid by (rule valid_state_mset)
  obtain b where b: "State_Draw S = Inr b" "occupied b = set (concat (map cells (pieces S)))"
    using State_Draw_valid [OF valid] by blast
  obtain b' where b': "State_Draw C = Inr b'" "occupied b' = set (concat (map cells (pieces C)))"
    using State_Draw_valid [OF validC] by blast
  have "set (pieces C) = set (pieces S)"
    using msetC by (rule mset_eq_setD)
  then have occ: "occupied b' = occupied b"
    using b(2) b'(2) by simp
  from slide b(1) obtain i0 where i0: "i0 < length (pieces S)"
      "(legal_move (pieces S ! i0) b (- 1) \<and> T = moved S i0 (- 1)) \<or>
       (legal_move (pieces S ! i0) b 1 \<and> T = moved S i0 1)"
    unfolding one_cell_slide_def by auto
  then have "\<exists>d. (d = - 1 \<or> d = 1) \<and> legal_move (pieces S ! i0) b d \<and> T = moved S i0 d"
    by blast
  with i0(1) obtain i d where
    i: "i < length (pieces S)" and d: "d = - 1 \<or> d = 1"
    and legal: "legal_move (pieces S ! i) b d" and T: "T = moved S i d"
    by blast
  let ?p = "pieces S ! i"
  have p: "in_bounds ?p"
    using valid i by (simp add: valid_state_def list_all_length)
  have free: "(d = - 1 \<and> free_cell b (cell_before ?p)) \<or> (d = 1 \<and> free_cell b (cell_after ?p))"
    using d legal legal_move_back_iff [OF p] legal_move_forward_iff [OF p] by auto
  then have free': "(d = - 1 \<and> free_cell b' (cell_before ?p)) \<or> (d = 1 \<and> free_cell b' (cell_after ?p))"
    using occ by (simp add: free_cell_occupied)
  have rangeS: "\<exists>lo hi. MovementRange ?p b = Inr (lo, hi) \<and> lo \<le> d \<and> d \<le> hi \<and> d \<noteq> 0"
    using free unfolding MovementRange_in_bounds [OF p] by auto
  have rangeC: "\<exists>lo hi. MovementRange ?p b' = Inr (lo, hi) \<and> lo \<le> d \<and> d \<le> hi \<and> d \<noteq> 0"
    using free' unfolding MovementRange_in_bounds [OF p] by auto
  have validT: "valid_state T"
    using rangeS moved_valid [OF valid b(1) i] T by blast
  have "\<exists>j. j < length (pieces C) \<and> pieces C ! j = ?p \<and>
             same_up_to_order T \<lparr>pieces = hd ((pieces C)[j := Move ?p d]) #
                                          std_sort srt (tl ((pieces C)[j := Move ?p d]))\<rparr>"
  proof (cases i)
    case 0
    then have "pieces T = Move g d # xs" "pieces C ! 0 = ?p" "(pieces C)[0 := Move ?p d] = Move g d # ys"
      using S C T by (simp_all add: moved_def)
    then show ?thesis
      using C perm by (intro exI [of _ 0]) (simp add: same_up_to_order_def)
  next
    case (Suc i')
    then have i': "i' < length xs" "?p = xs ! i'"
      using S i by simp_all
    have "set xs = set ys"
      using perm by (rule mset_eq_setD)
    moreover have "xs ! i' \<in> set xs"
      using i'(1) by (rule nth_mem)
    ultimately have "?p \<in> set ys"
      using i'(2) by simp
    then obtain j' where j': "j' < length ys" "ys ! j' = ?p"
      by (auto simp: in_set_conv_nth)
    have "mset (xs[i' := Move ?p d]) = mset (ys[j' := Move ?p d])"
      using i' j' perm by (simp add: mset_update)
    moreover have "pieces T = g # xs[i' := Move ?p d]"
      using S T Suc by (simp add: moved_def)
    moreover have "(pieces C)[Suc j' := Move ?p d] = g # ys[j' := Move ?p d]"
      using C by simp
    ultimately have "same_up_to_order T \<lparr>pieces = hd ((pieces C)[Suc j' := Move ?p d]) #
                                          std_sort srt (tl ((pieces C)[Suc j' := Move ?p d]))\<rparr>"
      by (simp add: same_up_to_order_def)
    moreover have "Suc j' < length (pieces C)" "pieces C ! Suc j' = ?p"
      using C j' by simp_all
    ultimately show ?thesis by blast
  qed
  then obtain j where j: "j < length (pieces C)" "pieces C ! j = ?p"
    and sameT: "same_up_to_order T \<lparr>pieces = hd ((pieces C)[j := Move ?p d]) #
                                          std_sort srt (tl ((pieces C)[j := Move ?p d]))\<rparr>"
    by blast
  let ?C' = "\<lparr>pieces = hd ((pieces C)[j := Move ?p d]) # std_sort srt (tl ((pieces C)[j := Move ?p d]))\<rparr>"
  have "length ((pieces C)[j := Move ?p d]) = length (pieces C)"
    by (rule length_list_update)
  also have "\<dots> = Suc (length ys)"
    by (simp add: C)
  finally obtain h rest where upd: "(pieces C)[j := Move ?p d] = h # rest"
    by (cases "(pieces C)[j := Move ?p d]") simp_all
  have "pieces (moved C j d) = h # rest"
    using upd j(2) by (simp add: moved_def)
  then have canon: "Canonicalize srt (moved C j d) = Inr ?C'"
    using upd by (simp add: Canonicalize_def)
  obtain ns where ns: "Neighbors srt C = Inr ns"
    using Neighbors_valid [OF validC] by blast
  have "\<exists>b j lo hi d. State_Draw C = Inr b \<and> j < length (pieces C) \<and>
          MovementRange (pieces C ! j) b = Inr (lo, hi) \<and> lo \<le> d \<and> d \<le> hi \<and>
          d \<noteq> 0 \<and> Canonicalize srt (moved C j d) = Inr ?C'"
  proof -
    from rangeC obtain lo hi where
      "MovementRange (pieces C ! j) b' = Inr (lo, hi)" "lo \<le> d" "d \<le> hi" "d \<noteq> 0"
      using j(2) by auto
    then have "State_Draw C = Inr b' \<and> j < length (pieces C) \<and>
          MovementRange (pieces C ! j) b' = Inr (lo, hi) \<and> lo \<le> d \<and> d \<le> hi \<and>
          d \<noteq> 0 \<and> Canonicalize srt (moved C j d) = Inr ?C'"
      using b'(1) j(1) canon by simp
    then show ?thesis by blast
  qed
  then have "?C' \<in> set ns"
    using Neighbors_mem [OF ns, of ?C'] by simp
  then have "step srt C ?C'"
    using ns by (simp add: step_iff)
  then show ?thesis
    using sameT validT by blast
qed

lemma slides_simulation:
  assumes "valid_state S" and "same_up_to_order S C" and "slides_ok (S # rest)"
  shows "\<exists>ys. moves_ok srt (C # ys) \<and> length ys = length rest \<and>
               same_up_to_order (last (S # rest)) (last (C # ys))"
  using assms
proof (induction rest arbitrary: S C)
  case Nil
  then show ?case by (intro exI [of _ "[]"]) simp
next
  case (Cons T rest)
  then have "one_cell_slide S T" "slides_ok (T # rest)"
    by simp_all
  from slide_simulation [OF Cons.prems(1,2) this(1)] obtain C' where
    C': "step srt C C'" "same_up_to_order T C'" "valid_state T"
    by blast
  from Cons.IH [OF C'(3,2) \<open>slides_ok (T # rest)\<close>] obtain ys where
    ys: "moves_ok srt (C' # ys)" "length ys = length rest"
        "same_up_to_order (last (T # rest)) (last (C' # ys))"
    by blast
  have "moves_ok srt (C # C' # ys) \<and> length (C' # ys) = length (T # rest) \<and>
        same_up_to_order (last (S # T # rest)) (last (C # C' # ys))"
    using C'(1) ys by simp
  then show ?case by blast
qed

lemma shortest_among_moves:
  assumes "Solve srt (mk_Game start dx dy) = Some (Inr path)" and "path \<noteq> []"
    and "xs \<noteq> []" and "hd xs = start" and "moves_ok srt xs" and "state_at_dest dx dy (last xs)"
  shows "length path \<le> length xs"
proof -
  from Solve_succeeds [OF assms(1,2)] obtain e q prev where
    e: "Solve_loop srt dx dy [\<lparr>state = start, moves = 0\<rparr>] [start \<mapsto> \<lparr>pieces = []\<rparr>] =
          Inr (Some e, q, prev)"
       "TracePathTo prev (state e) = Some (Inr path)"
    by blast
  from Solve_found [OF e(1)] e(2) obtain lv where
    inv: "bfs_inv srt start dx dy lv (e # q) prev" and len: "int (length path) = moves e + 1"
    by auto
  have "reach srt start (length xs - 1) (last xs)"
    using moves_ok_reach [OF assms(3,5)] assms(4) by simp
  then have "lv (state e) \<le> length xs - 1"
    using bfs_inv_shortest [OF inv] assms(6) by blast
  moreover have "moves e = int (lv (state e))"
    using bfs_invD(6) [OF inv, of e] by simp
  moreover have "0 < length xs"
    using assms(3) by simp
  ultimately show "length path \<le> length xs"
    using len by linarith
qed

lemma shortest_among_slides:
  assumes "Solve srt (mk_Game start dx dy) = Some (Inr path)" and "path \<noteq> []"
    and "valid_state start"
    and "xs \<noteq> []" and "hd xs = start" and "slides_ok xs" and "state_at_dest dx dy (last xs)"
  shows "length path \<le> length xs"
proof -
  have "pieces start \<noteq> []"
    using Solve_succeeds [OF assms(1,2)] Solve_loop_no_piece [of start srt dx dy 0 "[]"] by auto
  then have same: "same_up_to_order start start"
    by (cases "pieces start") (simp_all add: same_up_to_order_def)
  obtain rest where xs: "xs = start # rest"
    using assms(4,5) by (cases xs) auto
  from slides_simulation [OF assms(3) same] assms(6) xs obtain ys where
    ys: "moves_ok srt (start # ys)" "length ys = length rest"
        "same_up_to_order (last (start # rest)) (last (start # ys))"
    by blast
  have "state_at_dest dx dy (last (start # ys))"
    using same_up_to_order_dest [OF ys(3)] assms(7) xs by simp
  then have "length path \<le> length (start # ys)"
    using ys(1) by (intro shortest_among_moves [OF assms(1,2)]) simp_all
  then show ?thesis
    using ys(2) xs by simp
qed



section \<open>What Solve returns\<close>



text \<open>
  Claim C2, as the code has it. A move of the search is what \<open>Neighbors\<close> generates: one
  piece moved by one cell, the state then put in canonical order. When \<open>Solve\<close>, with
  any sorter, returns a sequence that is not empty, no sequence of such moves from the
  start state to a state with the front piece at the destination is shorter; and when the pieces of the start
  state are in bounds and cover no cell twice, no sequence of collision-free slides by one
  cell (without the reordering) is shorter either.
\<close>

theorem Solve_shortest:
  assumes "Solve srt (mk_Game start dx dy) = Some (Inr path)" and "path \<noteq> []"
  shows "(\<forall>xs. xs \<noteq> [] \<and> hd xs = start \<and> moves_ok srt xs \<and> state_at_dest dx dy (last xs) \<longrightarrow>
              length path \<le> length xs) \<and>
         (list_all in_bounds (pieces start) \<and> no_overlap start \<longrightarrow>
            (\<forall>xs. xs \<noteq> [] \<and> hd xs = start \<and> slides_ok xs \<and> state_at_dest dx dy (last xs) \<longrightarrow>
              length path \<le> length xs))"
  using shortest_among_moves [OF assms] shortest_among_slides [OF assms]
  by (simp add: valid_state_def)

theorem Solve_shortest_witness:
  "Solve insertion_sorter (mk_Game S1 1 0) = Some (Inr [S1, N1]) \<and> [S1, N1] \<noteq> [] \<and>
   list_all in_bounds (pieces S1) \<and> no_overlap S1 \<and>
   [S1, N1, S1, N1] \<noteq> [] \<and> hd [S1, N1, S1, N1] = S1 \<and> moves_ok insertion_sorter [S1, N1, S1, N1] \<and>
   slides_ok [S1, N1, S1, N1] \<and>
   state_at_dest 1 0 (last [S1, N1, S1, N1]) \<and> length [S1, N1] \<le> length [S1, N1, S1, N1]"
proof -
  have h: "Solve insertion_sorter (mk_Game S1 1 0) = Some (Inr [S1, N1])"
    by code_simp
  have m: "moves_ok insertion_sorter [S1, N1, S1, N1]"
    by code_simp
  have s: "slides_ok [S1, N1, S1, N1]"
    by code_simp
  have d: "state_at_dest 1 0 (last [S1, N1, S1, N1])"
    by code_simp
  have v: "list_all in_bounds (pieces S1)" "no_overlap S1"
    by code_simp+
  show ?thesis
    using Solve_shortest [OF h] h m s d v by simp
qed

text \<open>
  Claim C2 as the specification states it fails: a slide over two cells is one
  collision-free slide of one piece, and it takes the corner piece to \<open>(2, 0)\<close>; the
  path \<open>Solve\<close> returns has two moves.
\<close>

theorem Solve_shortest_counterexample:
  "Solve insertion_sorter (mk_Game S1 2 0) = Some (Inr [S1, N1, M1]) \<and> spec_slide S1 0 2 \<and>
   moved S1 0 2 = M1 \<and> state_at_dest 2 0 M1"
  by code_simp

text \<open>
  Claim C6. When the front piece of the start state is at the destination, \<open>Solve\<close>
  returns the sequence whose only element is the start state, whatever the sorter; the loop
  stops at the first queue element, the start state with move count 0, and leaves the queue
  empty.
\<close>

theorem Solve_already_there:
  assumes "state_at_dest dx dy start"
  shows "Solve srt (mk_Game start dx dy) = Some (Inr [start]) \<and>
         Solve_loop srt dx dy [\<lparr>state = start, moves = 0\<rparr>] [start \<mapsto> \<lparr>pieces = []\<rparr>] =
           Inr (Some \<lparr>state = start, moves = 0\<rparr>, [], [start \<mapsto> \<lparr>pieces = []\<rparr>])"
proof -
  from assms obtain front_piece others where
    fp: "pieces start = front_piece # others" "at_dest dx dy front_piece"
    by (cases "pieces start") (auto simp: state_at_dest_def)
  have loop: "Solve_loop srt dx dy [\<lparr>state = start, moves = 0\<rparr>] [start \<mapsto> \<lparr>pieces = []\<rparr>] =
          Inr (Some \<lparr>state = start, moves = 0\<rparr>, [], [start \<mapsto> \<lparr>pieces = []\<rparr>])"
    using fp by (simp add: Solve_loop.simps)
  have "TracePathTo [start \<mapsto> \<lparr>pieces = []\<rparr>] start = Some (Inr [start])"
    using fp(1)
    by (simp add: TracePathTo_def TracePathTo_loop.simps [of _ start]
        TracePathTo_loop.simps [of _ "\<lparr>pieces = []\<rparr>"])
  with loop have "Solve srt (mk_Game start dx dy) = Some (Inr [start])"
    by (simp add: Solve_fresh)
  with loop show ?thesis
    by (rule conjI [rotated])
qed

theorem Solve_already_there_witness:
  "state_at_dest 0 2 S_main \<and> Solve insertion_sorter (mk_Game S_main 0 2) = Some (Inr [S_main]) \<and>
   Solve_loop insertion_sorter 0 2 [\<lparr>state = S_main, moves = 0\<rparr>] [S_main \<mapsto> \<lparr>pieces = []\<rparr>] =
     Inr (Some \<lparr>state = S_main, moves = 0\<rparr>, [], [S_main \<mapsto> \<lparr>pieces = []\<rparr>])"
proof -
  have h: "state_at_dest 0 2 S_main"
    by code_simp
  show ?thesis
    using Solve_already_there [OF h] h by simp
qed

text \<open>
  Claim C7, as the code has it. For a start state with at least one piece, whose pieces are
  in bounds and cover no cell twice: when no sequence of moves from the start state ends
  in a state with the front piece at the destination, the loop of \<open>Solve\<close> ends with
  an empty queue and \<open>Solve\<close> returns the empty sequence, which is not the sequence of
  the start state alone; this with every sorter.
\<close>

theorem Solve_unreachable:
  assumes "list_all in_bounds (pieces start)" and "no_overlap start" and "pieces start \<noteq> []"
    and "\<forall>xs. xs \<noteq> [] \<and> hd xs = start \<and> moves_ok srt xs \<longrightarrow> \<not> state_at_dest dx dy (last xs)"
  shows "(\<exists>prev. Solve_loop srt dx dy [\<lparr>state = start, moves = 0\<rparr>] [start \<mapsto> \<lparr>pieces = []\<rparr>] =
                   Inr (None, [], prev)) \<and>
         Solve srt (mk_Game start dx dy) = Some (Inr []) \<and>
         Solve srt (mk_Game start dx dy) \<noteq> Some (Inr [start])"
proof -
  let ?P = "\<lambda>s. \<exists>k. reach srt start k s"
  have valid: "valid_state start"
    using assms(1,2) by (simp add: valid_state_def)
  have "\<forall>s. ?P s \<longrightarrow> pieces s \<noteq> [] \<and> \<not> state_at_dest dx dy s \<and>
                 (\<exists>ns. Neighbors srt s = Inr ns \<and> (\<forall>t \<in> set ns. ?P t))"
  proof (intro allI impI)
    fix s assume "?P s"
    then obtain k where k: "reach srt start k s" by blast
    have "pieces s \<noteq> []"
      using reach_length [OF k] assms(3) by auto
    moreover have "\<not> state_at_dest dx dy s"
      using reach_moves_ok [OF k] assms(4) by blast
    moreover obtain ns where ns: "Neighbors srt s = Inr ns"
      using Neighbors_valid [OF reach_valid [OF valid k]] by blast
    moreover have "?P t" if "t \<in> set ns" for t
    proof -
      have "reach srt start (Suc k) t"
        using k ns that by (auto simp: step_iff)
      then show ?thesis by blast
    qed
    ultimately show "pieces s \<noteq> [] \<and> \<not> state_at_dest dx dy s \<and>
                 (\<exists>ns. Neighbors srt s = Inr ns \<and> (\<forall>t \<in> set ns. ?P t))"
      by blast
  qed
  moreover have "\<forall>e \<in> set [\<lparr>state = start, moves = 0\<rparr>]. ?P (state e)"
  proof -
    have "\<exists>k. reach srt start k start"
      by (rule exI [of _ 0]) simp
    then show ?thesis by simp
  qed
  ultimately have "\<exists>prev. Solve_loop srt dx dy [\<lparr>state = start, moves = 0\<rparr>]
                            [start \<mapsto> \<lparr>pieces = []\<rparr>] = Inr (None, [], prev)"
    by (rule Solve_loop_exhaust)
  then show ?thesis
    by (auto simp: Solve_fresh)
qed

theorem Solve_unreachable_witness:
  "list_all in_bounds (pieces S1) \<and> no_overlap S1 \<and> pieces S1 \<noteq> [] \<and>
   (\<exists>prev. Solve_loop insertion_sorter 0 1 [\<lparr>state = S1, moves = 0\<rparr>] [S1 \<mapsto> \<lparr>pieces = []\<rparr>] =
             Inr (None, [], prev)) \<and>
   Solve insertion_sorter (mk_Game S1 0 1) = Some (Inr []) \<and>
   Solve insertion_sorter (mk_Game S1 0 1) \<noteq> Some (Inr [S1])"
proof -
  have h1: "list_all in_bounds (pieces S1)" and h2: "no_overlap S1" and h3: "pieces S1 \<noteq> []"
    by code_simp+
  have "\<forall>s \<in> set row_states. \<not> state_at_dest 0 1 s"
    by code_simp
  then have h4: "\<forall>xs. xs \<noteq> [] \<and> hd xs = S1 \<and> moves_ok insertion_sorter xs \<longrightarrow>
                      \<not> state_at_dest 0 1 (last xs)"
    using row_states_reach by blast
  show ?thesis
    using Solve_unreachable [OF h1 h2 h3 h4] h1 h2 h3 by simp
qed

text \<open>
  Claim C7 as the specification states it fails for a start state in which two pieces
  overlap. The front piece of \<open>S_clash\<close> lies in row 2 and slides along it, so no move
  takes it to a destination in row 3; the state has no neighbour, since rendering it ends
  in the clash branch of \<^verbatim>\<open>Piece::Draw\<close>; and \<open>Solve\<close> ends there too and returns no
  sequence.
\<close>

theorem Solve_unreachable_counterexample:
  "pieces S_clash \<noteq> [] \<and> \<not> state_at_dest 4 3 S_clash \<and>
   Neighbors insertion_sorter S_clash = Inl Clash \<and>
   Solve insertion_sorter (mk_Game S_clash 4 3) = Some (Inl Clash)"
  by code_simp




end
